theory Spec2Isabelle
  imports
    Main
    "HOL-Library.AList"
    "HOL-Library.Char_ord"
    "HOL-Library.List_Lexorder"
    "HOL-Library.Product_Lexorder"
begin

section \<open>The lineage querier of mindinsight/lineagemgr/querier/querier.py\<close>

text \<open>
  The development embeds the class \<open>Querier\<close> and the enumerations beside it. Python
  strings are \<open>string\<close>; their comparison is the lexicographic order on character codes,
  which is the order of \<open>HOL-Library.List_Lexorder\<close> over \<open>HOL-Library.Char_ord\<close>.
  Exceptions are values of the type \<open>error\<close>, returned as \<open>Inl\<close>; \<open>OutsideModel\<close> is no
  exception of Python: it marks a call whose outcome the model does not determine.
\<close>

subsection \<open>Exceptions\<close>

datatype error =
    LineageQuerierParamException
  | LineageParamTypeError
  | LineageSummaryParseException
  | UncaughtAnalyzerError
  | TypeError
  | AttributeError
  | ValueError
  | IndexError
  | OutsideModel

subsection \<open>Values\<close>

text \<open>
  A field value of a lineage object is a string, an integer or \<open>None\<close> (the docstring of
  \<open>is_match\<close> names \<open>str\<close>, \<open>int\<close> and \<open>float\<close>; floating-point values are left out of the
  model). An expected value of a filter expression is one such value or a list (or tuple)
  of them.
\<close>

datatype pyval = PNone | PInt int | PStr string

datatype expval = Single pyval | Multi "pyval list"

subsection \<open>Library functions of Python used by the querier\<close>

text \<open>\<open>str(n)\<close> for an integer: the decimal digits, with a minus sign for a negative one.\<close>

definition digit_char :: "nat \<Rightarrow> char" where
  "digit_char d = char_of (48 + d)"

fun digits :: "nat \<Rightarrow> string" where
  "digits n = (if n < 10 then [digit_char n] else digits (n div 10) @ [digit_char (n mod 10)])"

declare digits.simps [simp del]

definition py_str :: "int \<Rightarrow> string" where
  "py_str i = (if i < 0 then CHR ''-'' # digits (nat (- i)) else digits (nat i))"

text \<open>
  \<open>int(s)\<close> for a string: an optional sign and a non-empty run of decimal digits;
  anything else raises \<open>ValueError\<close>, which is \<open>None\<close> here. (Python also accepts blanks
  around the number and underscores inside it; no tag of the group table has them.)
\<close>

definition is_digit :: "char \<Rightarrow> bool" where
  "is_digit c \<longleftrightarrow> 48 \<le> (of_char c :: nat) \<and> (of_char c :: nat) \<le> 57"

definition digit_val :: "char \<Rightarrow> nat" where
  "digit_val c = of_char c - 48"

fun parse_digits :: "nat \<Rightarrow> string \<Rightarrow> nat" where
  "parse_digits acc [] = acc"
| "parse_digits acc (c # cs) = parse_digits (acc * 10 + digit_val c) cs"

definition parse_unsigned :: "string \<Rightarrow> nat option" where
  "parse_unsigned s = (if s \<noteq> [] \<and> list_all is_digit s then Some (parse_digits 0 s) else None)"

fun py_int :: "string \<Rightarrow> int option" where
  "py_int [] = None"
| "py_int (c # cs) =
     (if c = CHR ''-'' then map_option (\<lambda>n. - int n) (parse_unsigned cs)
      else if c = CHR ''+'' then map_option int (parse_unsigned cs)
      else map_option int (parse_unsigned (c # cs)))"

text \<open>
  \<open>max(xs)\<close> over strings: the first greatest element in the lexicographic order;
  \<open>ValueError\<close> (here \<open>None\<close>) on an empty sequence.
\<close>

fun py_max :: "string list \<Rightarrow> string option" where
  "py_max [] = None"
| "py_max (x # xs) = Some (fold (\<lambda>item m. if m < item then item else m) xs x)"

text \<open>
  \<open>os.path.dirname\<close> (posixpath): the part before the last slash, without its trailing
  slashes unless it consists of slashes only.
\<close>

definition dirname :: "string \<Rightarrow> string" where
  "dirname p =
     (let head = rev (dropWhile (\<lambda>c. c \<noteq> CHR ''/'') (rev p))
      in if head \<noteq> [] \<and> \<not> list_all (\<lambda>c. c = CHR ''/'') head
         then rev (dropWhile (\<lambda>c. c = CHR ''/'') (rev head))
         else head)"

subsection \<open>Lineage objects\<close>

text \<open>
  The class \<open>LineageObj\<close> lives in \<open>query_model.py\<close>, which is not among the sources. The
  querier reads \<open>summary_dir\<close>, \<open>dataset_graph\<close> and \<open>get_value_by_key\<close>, and writes
  \<open>dataset_mark\<close> (\<open>None\<close> until the first grouping pass). A dataset graph is a nested
  dictionary compared by \<open>==\<close>, that is by structure; its type is the parameter \<open>'g\<close>,
  compared by HOL equality.
\<close>

record 'g lineage_obj =
  summary_dir :: string
  field_values :: "(string \<times> pyval) list"
  dataset_graph :: "'g option"
  dataset_mark :: "string option"

text \<open>
  Modelled from the spec: \<open>RunRecord.valueOf(fieldName)\<close> returns the value of the field,
  or null when the field has no value.
\<close>

definition get_value_by_key :: "'g lineage_obj \<Rightarrow> string \<Rightarrow> pyval" where
  "get_value_by_key obj key = (case map_of (field_values obj) key of None \<Rightarrow> PNone | Some v \<Rightarrow> v)"

subsection \<open>\<open>Querier._add_dataset_mark\<close>\<close>

text \<open>
  The group table \<open>marked_dataset_group\<close> is a dictionary from tags to dataset graphs. It
  is an association list in insertion order; \<open>dict.update\<close> with one key is
  \<open>AList.update\<close>: the value is replaced in place when the key exists, and the entry is
  appended otherwise.
\<close>

type_synonym 'g group = "(string \<times> 'g option) list"

text \<open>The inner loop: the tag of the first entry whose graph equals the wanted one, else \<open>'0'\<close>.\<close>

fun find_mark :: "'g group \<Rightarrow> 'g option \<Rightarrow> string" where
  "find_mark [] g = ''0''"
| "find_mark ((dataset_graph_mark, marked_dataset_graph) # rest) g =
     (if marked_dataset_graph = g then dataset_graph_mark else find_mark rest g)"

text \<open>\<open>str(int(max(marked_dataset_group.keys())) + 1)\<close>\<close>

definition new_mark :: "'g group \<Rightarrow> error + string" where
  "new_mark grp =
     (case py_max (map fst grp) of
        None \<Rightarrow> Inl ValueError
      | Some m \<Rightarrow> (case py_int m of None \<Rightarrow> Inl ValueError | Some i \<Rightarrow> Inr (py_str (i + 1))))"

fun mark_loop :: "'g group \<Rightarrow> 'g lineage_obj list \<Rightarrow> error + 'g lineage_obj list" where
  "mark_loop grp [] = Inr []"
| "mark_loop grp (lineage # rest) =
     (let mark = find_mark grp (dataset_graph lineage) in
      if mark = ''0'' then
        (case new_mark grp of
           Inl e \<Rightarrow> Inl e
         | Inr m \<Rightarrow>
             (case mark_loop (AList.update m (dataset_graph lineage) grp) rest of
                Inl e \<Rightarrow> Inl e
              | Inr rest' \<Rightarrow> Inr (lineage\<lparr>dataset_mark := Some m\<rparr> # rest')))
      else
        (case mark_loop grp rest of
           Inl e \<Rightarrow> Inl e
         | Inr rest' \<Rightarrow> Inr (lineage\<lparr>dataset_mark := Some mark\<rparr> # rest')))"

definition add_dataset_mark :: "'g lineage_obj list \<Rightarrow> error + 'g lineage_obj list" where
  "add_dataset_mark objs = mark_loop [(''1'', None)] objs"

subsection \<open>The state of a \<open>Querier\<close>\<close>

record 'g querier =
  lineage_objects :: "'g lineage_obj list"
  index_map :: "string \<rightharpoonup> nat"
  parse_failed_paths :: "string list"
  qsize :: nat

text \<open>
  \<open>LineageSummaryAnalyzer.get_summary_infos\<close> and the constructor of \<open>LineageObj\<close> are
  outside the sources. What the querier sees of them for one path is one of three
  outcomes: the field values and the dataset graph of a new object; one of the three
  exceptions that \<open>_parse_summary_log\<close> catches; or any other exception, which it does
  not catch. The outcome of each path is a parameter of every operation that parses,
  since a log can change between two queries.
\<close>

datatype 'g parse_outcome =
    Parsed "(string \<times> pyval) list" "'g option"
  | Retryable
  | Uncaught

type_synonym 'g analyzer = "string \<Rightarrow> 'g parse_outcome"

subsection \<open>\<open>Querier._parse_summary_log\<close>\<close>

definition parse_summary_log ::
  "'g analyzer \<Rightarrow> string \<Rightarrow> nat \<Rightarrow> bool \<Rightarrow> 'g querier \<Rightarrow> error + (bool \<times> 'g querier)" where
  "parse_summary_log analyzer log_path index is_save_fail_path q =
     (let log_dir = dirname log_path in
      case analyzer log_path of
        Parsed vals graph \<Rightarrow>
          (case add_dataset_mark
                  (lineage_objects q @
                    [\<lparr>summary_dir = log_dir, field_values = vals,
                      dataset_graph = graph, dataset_mark = None\<rparr>]) of
             Inl e \<Rightarrow> Inl e
           | Inr objs \<Rightarrow>
               Inr (True, q\<lparr>lineage_objects := objs,
                             index_map := (index_map q)(log_dir \<mapsto> index)\<rparr>))
      | Retryable \<Rightarrow>
          Inr (False,
               if is_save_fail_path
               then q\<lparr>parse_failed_paths := parse_failed_paths q @ [log_path]\<rparr>
               else q)
      | Uncaught \<Rightarrow> Inl UncaughtAnalyzerError)"

subsection \<open>\<open>Querier._parse_summary_logs\<close> and \<open>Querier.__init__\<close>\<close>

text \<open>
  The argument \<open>summary_path\<close> is a string, a list of strings, or a value of another
  type, of which the code observes the truth value only (\<open>None\<close>, \<open>0\<close> and an empty
  tuple are false).
\<close>

datatype summary_path = PathStr string | PathList "string list" | PathOther bool

fun truthy :: "summary_path \<Rightarrow> bool" where
  "truthy (PathStr s) = (s \<noteq> [])"
| "truthy (PathList ps) = (ps \<noteq> [])"
| "truthy (PathOther b) = b"

fun parse_list :: "'g analyzer \<Rightarrow> string list \<Rightarrow> nat \<Rightarrow> 'g querier \<Rightarrow> error + 'g querier" where
  "parse_list analyzer [] index q = Inr q"
| "parse_list analyzer (path # rest) index q =
     (case parse_summary_log analyzer path index True q of
        Inl e \<Rightarrow> Inl e
      | Inr (parse_result, q') \<Rightarrow>
          parse_list analyzer rest (if parse_result then index + 1 else index) q')"

definition parse_summary_logs ::
  "'g analyzer \<Rightarrow> summary_path \<Rightarrow> 'g querier \<Rightarrow> error + 'g querier" where
  "parse_summary_logs analyzer summary_path q =
     (if \<not> truthy summary_path then Inl LineageQuerierParamException
      else
        case (case summary_path of
                PathStr s \<Rightarrow> map_sum id snd (parse_summary_log analyzer s 0 True q)
              | PathList ps \<Rightarrow> parse_list analyzer ps 0 q
              | PathOther b \<Rightarrow> Inl LineageParamTypeError) of
          Inl e \<Rightarrow> Inl e
        | Inr q' \<Rightarrow>
            if lineage_objects q' = [] then Inl LineageSummaryParseException else Inr q')"

definition init :: "'g analyzer \<Rightarrow> summary_path \<Rightarrow> error + 'g querier" where
  "init analyzer summary_path =
     (case parse_summary_logs analyzer summary_path
             \<lparr>lineage_objects = [], index_map = Map.empty, parse_failed_paths = [], qsize = 0\<rparr> of
        Inl e \<Rightarrow> Inl e
      | Inr q \<Rightarrow> Inr (q\<lparr>qsize := length (lineage_objects q)\<rparr>))"

subsection \<open>\<open>Querier._parse_fail_summary_logs\<close>\<close>

fun retry_loop ::
  "'g analyzer \<Rightarrow> string list \<Rightarrow> string list \<Rightarrow> 'g querier \<Rightarrow> error + (string list \<times> 'g querier)" where
  "retry_loop analyzer [] failed_paths q = Inr (failed_paths, q)"
| "retry_loop analyzer (path # rest) failed_paths q =
     (case parse_summary_log analyzer path (qsize q) False q of
        Inl e \<Rightarrow> Inl e
      | Inr (parse_result, q') \<Rightarrow>
          if parse_result
          then retry_loop analyzer rest failed_paths (q'\<lparr>qsize := qsize q' + 1\<rparr>)
          else retry_loop analyzer rest (failed_paths @ [path]) q')"

definition parse_fail_summary_logs :: "'g analyzer \<Rightarrow> 'g querier \<Rightarrow> error + 'g querier" where
  "parse_fail_summary_logs analyzer q =
     (if parse_failed_paths q \<noteq> [] then
        (case retry_loop analyzer (parse_failed_paths q) [] q of
           Inl e \<Rightarrow> Inl e
         | Inr (failed_paths, q') \<Rightarrow> Inr (q'\<lparr>parse_failed_paths := failed_paths\<rparr>))
      else Inr q)"

text \<open>
  The object after the pass, whether the pass returned or an exception left it. An
  exception of the analyzer is raised before \<open>_parse_summary_log\<close> changes anything,
  so the object keeps the records, the index entries and the \<open>_size\<close> of the paths
  parsed before it; the assignment to \<open>_parse_failed_paths\<close> after the loop is not
  reached, and the failed-list stays as it was.
\<close>

fun retry_loop_left :: "'g analyzer \<Rightarrow> string list \<Rightarrow> 'g querier \<Rightarrow> 'g querier" where
  "retry_loop_left analyzer [] q = q"
| "retry_loop_left analyzer (path # rest) q =
     (case parse_summary_log analyzer path (qsize q) False q of
        Inl e \<Rightarrow> q
      | Inr (parse_result, q') \<Rightarrow>
          if parse_result
          then retry_loop_left analyzer rest (q'\<lparr>qsize := qsize q' + 1\<rparr>)
          else retry_loop_left analyzer rest q')"

definition parse_fail_summary_logs_left :: "'g analyzer \<Rightarrow> 'g querier \<Rightarrow> 'g querier" where
  "parse_fail_summary_logs_left analyzer q =
     (case parse_fail_summary_logs analyzer q of
        Inr q' \<Rightarrow> q'
      | Inl e \<Rightarrow> retry_loop_left analyzer (parse_failed_paths q) q)"

subsection \<open>The enumerations\<close>

definition is_condition_type :: "string \<Rightarrow> bool" where
  "is_condition_type v \<longleftrightarrow>
     v \<in> set [''limit'', ''offset'', ''sorted_name'', ''sorted_type'', ''lineage_type'']"

definition is_valid_exp :: "string \<Rightarrow> bool" where
  "is_valid_exp key \<longleftrightarrow> key \<in> set [''eq'', ''lt'', ''gt'', ''le'', ''ge'', ''in'']"

definition get_key_list :: "string list" where
  "get_key_list =
     [''metric'', ''hyper_parameters'', ''algorithm'', ''train_dataset'', ''valid_dataset'',
      ''model'', ''dataset_graph'']"

definition is_valid_filter_key :: "string \<Rightarrow> bool" where
  "is_valid_filter_key key \<longleftrightarrow> key \<in> set get_key_list"

subsection \<open>\<open>ExpressionType.is_match\<close>\<close>

text \<open>
  The functions of the module \<open>operator\<close> on the values of the model. An ordering
  comparison of two integers or of two strings is the order of the type; between values
  of different types, or with \<open>None\<close>, it raises \<open>TypeError\<close>. Equality never raises.
\<close>

fun operator_lt :: "pyval \<Rightarrow> pyval \<Rightarrow> error + bool" where
  "operator_lt (PInt a) (PInt b) = Inr (a < b)"
| "operator_lt (PStr a) (PStr b) = Inr (a < b)"
| "operator_lt _ _ = Inl TypeError"

fun operator_le :: "pyval \<Rightarrow> pyval \<Rightarrow> error + bool" where
  "operator_le (PInt a) (PInt b) = Inr (a \<le> b)"
| "operator_le (PStr a) (PStr b) = Inr (a \<le> b)"
| "operator_le _ _ = Inl TypeError"

fun operator_gt :: "pyval \<Rightarrow> pyval \<Rightarrow> error + bool" where
  "operator_gt (PInt a) (PInt b) = Inr (a > b)"
| "operator_gt (PStr a) (PStr b) = Inr (a > b)"
| "operator_gt _ _ = Inl TypeError"

fun operator_ge :: "pyval \<Rightarrow> pyval \<Rightarrow> error + bool" where
  "operator_ge (PInt a) (PInt b) = Inr (a \<ge> b)"
| "operator_ge (PStr a) (PStr b) = Inr (a \<ge> b)"
| "operator_ge _ _ = Inl TypeError"

text \<open>A value against an expected value: a list is never equal to, and never ordered with, a value.\<close>

fun against :: "(pyval \<Rightarrow> pyval \<Rightarrow> error + bool) \<Rightarrow> pyval \<Rightarrow> expval \<Rightarrow> error + bool" where
  "against opr a (Single v) = opr a v"
| "against opr a (Multi vs) = Inl TypeError"

fun operator_eq :: "pyval \<Rightarrow> expval \<Rightarrow> error + bool" where
  "operator_eq a (Single v) = Inr (a = v)"
| "operator_eq a (Multi vs) = Inr False"

fun operator_ne :: "pyval \<Rightarrow> expval \<Rightarrow> error + bool" where
  "operator_ne a (Single v) = Inr (a \<noteq> v)"
| "operator_ne a (Multi vs) = Inr True"

text \<open>
  \<open>getattr(operator, name)(a, b)\<close>. The model has the six comparison functions of the
  module. For any other name the code calls the attribute of that name, whatever it
  is, or raises \<open>AttributeError\<close> when the module has none; the model does not say
  which and answers \<open>OutsideModel\<close>. \<open>_filter\<close> calls \<open>is_match\<close> only with a name that
  passed \<open>is_valid_exp\<close>, which leaves \<open>eq\<close>, \<open>lt\<close>, \<open>gt\<close>, \<open>le\<close> and \<open>ge\<close> here.
\<close>

definition operator_call :: "string \<Rightarrow> pyval \<Rightarrow> expval \<Rightarrow> error + bool" where
  "operator_call name a b =
     (if name = ''eq'' then operator_eq a b
      else if name = ''ne'' then operator_ne a b
      else if name = ''lt'' then against operator_lt a b
      else if name = ''gt'' then against operator_gt a b
      else if name = ''le'' then against operator_le a b
      else if name = ''ge'' then against operator_ge a b
      else Inl OutsideModel)"

fun is_substring :: "string \<Rightarrow> string \<Rightarrow> bool" where
  "is_substring t [] = (t = [])"
| "is_substring t (c # cs) = (take (length t) (c # cs) = t \<or> is_substring t cs)"

text \<open>
  \<open>operator.contains(b, a)\<close>, that is \<open>a in b\<close>: membership in a list or tuple, the
  substring test in a string, and \<open>TypeError\<close> for a container that is not iterable or
  for a value sought in a string that is not a string.
\<close>

fun operator_contains :: "expval \<Rightarrow> pyval \<Rightarrow> error + bool" where
  "operator_contains (Multi vs) a = Inr (a \<in> set vs)"
| "operator_contains (Single (PStr s)) (PStr t) = Inr (is_substring t s)"
| "operator_contains (Single v) a = Inl TypeError"

definition is_match :: "string \<Rightarrow> expval \<Rightarrow> pyval \<Rightarrow> error + bool" where
  "is_match except_key except_value actual_value =
     (if actual_value = PNone \<and> except_key \<in> set [''lt'', ''gt'', ''le'', ''ge'']
      then Inr False
      else if except_key = ''in'' then operator_contains except_value actual_value
      else operator_call except_key actual_value except_value)"

subsection \<open>Conditions\<close>

text \<open>
  A condition is a dictionary, iterated in insertion order: an association list. The
  value of a key is a scalar or a dictionary of expressions. \<open>k in condition\<close> is
  \<open>map_of condition k \<noteq> None\<close> and \<open>condition.get(k)\<close> is \<open>map_of condition k\<close>.
\<close>

datatype cond_value = Scalar pyval | Exprs "(string \<times> expval) list"

type_synonym condition = "(string \<times> cond_value) list"

text \<open>
  \<open>Querier._is_valid_field\<close>: true when the field is \<^emph>\<open>not\<close> supported. The table
  \<open>FIELD_MAPPING\<close> of \<open>query_model.py\<close> is not among the sources; its keys are the
  parameter \<open>field_mapping\<close>.
\<close>

definition is_valid_field :: "string list \<Rightarrow> string \<Rightarrow> bool" where
  "is_valid_field field_mapping field_name \<longleftrightarrow>
     field_name \<notin> set field_mapping \<and> take (length ''metric_'') field_name \<noteq> ''metric_''"

subsection \<open>\<open>Querier.filter_summary_lineage\<close>: the filter\<close>

fun match_exprs :: "(string \<times> expval) list \<Rightarrow> pyval \<Rightarrow> error + bool" where
  "match_exprs [] v = Inr True"
| "match_exprs ((exp_key, exp_value) # rest) v =
     (if \<not> is_valid_exp exp_key then Inl LineageQuerierParamException
      else case is_match exp_key exp_value v of
             Inl e \<Rightarrow> Inl e
           | Inr m \<Rightarrow> if \<not> m then Inr False else match_exprs rest v)"

text \<open>The local function \<open>_filter\<close>; a scalar where a dictionary is expected has no \<open>items\<close>.\<close>

fun filter_obj :: "string list \<Rightarrow> condition \<Rightarrow> 'g lineage_obj \<Rightarrow> error + bool" where
  "filter_obj field_mapping [] obj = Inr True"
| "filter_obj field_mapping ((condition_key, condition_value) # rest) obj =
     (if is_condition_type condition_key then filter_obj field_mapping rest obj
      else if is_valid_field field_mapping condition_key then Inl LineageQuerierParamException
      else
        let v = get_value_by_key obj condition_key in
        case condition_value of
          Scalar s \<Rightarrow> Inl AttributeError
        | Exprs es \<Rightarrow>
            (case match_exprs es v of
               Inl e \<Rightarrow> Inl e
             | Inr m \<Rightarrow> if \<not> m then Inr False else filter_obj field_mapping rest obj))"

text \<open>\<open>list(filter(f, xs))\<close> for a function that can raise.\<close>

fun py_filter :: "('a \<Rightarrow> error + bool) \<Rightarrow> 'a list \<Rightarrow> error + 'a list" where
  "py_filter f [] = Inr []"
| "py_filter f (x # xs) =
     (case f x of
        Inl e \<Rightarrow> Inl e
      | Inr keep \<Rightarrow>
          (case py_filter f xs of
             Inl e \<Rightarrow> Inl e
           | Inr ys \<Rightarrow> Inr (if keep then x # ys else ys)))"

subsection \<open>\<open>Querier.filter_summary_lineage\<close>: the sort\<close>

text \<open>The local function \<open>_cmp\<close>, with \<open>(value1 > value2) - (value1 < value2)\<close> on booleans.\<close>

definition cmp_values :: "pyval \<Rightarrow> pyval \<Rightarrow> error + int" where
  "cmp_values value1 value2 =
     (if value1 = PNone \<and> value2 = PNone then Inr 0
      else if value1 = PNone then Inr (- 1)
      else if value2 = PNone then Inr 1
      else case operator_gt value1 value2 of
             Inl e \<Rightarrow> Inl e
           | Inr g \<Rightarrow>
               (case operator_lt value1 value2 of
                  Inl e \<Rightarrow> Inl e
                | Inr l \<Rightarrow> Inr (of_bool g - of_bool l)))"

definition cmp :: "string \<Rightarrow> 'g lineage_obj \<Rightarrow> 'g lineage_obj \<Rightarrow> error + int" where
  "cmp sorted_name obj1 obj2 =
     cmp_values (get_value_by_key obj1 sorted_name) (get_value_by_key obj2 sorted_name)"

text \<open>
  \<open>sorted(xs, key=functools.cmp_to_key(c), reverse=r)\<close>. Python's sort is stable and
  compares two keys with \<open><\<close> only, which under \<open>cmp_to_key\<close> is \<open>c(a, b) < 0\<close>. With
  \<open>reverse=True\<close> it still keeps elements with equal keys in their original order
  (the library reference says so of \<open>list.sort\<close> and \<open>sorted\<close>): CPython reverses the
  list, sorts it, and reverses the result. The sort of the model is a stable insertion
  sort. Which pairs CPython compares, and hence which raising comparison it meets
  first on a list with values that cannot be compared, is not modelled.
\<close>

fun insort_py :: "('a \<Rightarrow> 'a \<Rightarrow> error + int) \<Rightarrow> 'a \<Rightarrow> 'a list \<Rightarrow> error + 'a list" where
  "insort_py c x [] = Inr [x]"
| "insort_py c x (y # ys) =
     (case c y x of
        Inl e \<Rightarrow> Inl e
      | Inr r \<Rightarrow>
          if r < 0
          then (case insort_py c x ys of Inl e \<Rightarrow> Inl e | Inr zs \<Rightarrow> Inr (y # zs))
          else Inr (x # y # ys))"

fun stable_sort :: "('a \<Rightarrow> 'a \<Rightarrow> error + int) \<Rightarrow> 'a list \<Rightarrow> error + 'a list" where
  "stable_sort c [] = Inr []"
| "stable_sort c (x # xs) =
     (case stable_sort c xs of Inl e \<Rightarrow> Inl e | Inr ys \<Rightarrow> insort_py c x ys)"

definition py_sorted :: "('a \<Rightarrow> 'a \<Rightarrow> error + int) \<Rightarrow> bool \<Rightarrow> 'a list \<Rightarrow> error + 'a list" where
  "py_sorted c reverse xs =
     (if reverse then map_sum id rev (stable_sort c (rev xs)) else stable_sort c xs)"

text \<open>
  Lines 293 to 304. A \<open>sorted_name\<close> that is not a string has no \<open>startswith\<close>, and a
  dictionary cannot be looked up in \<open>FIELD_MAPPING\<close>.
\<close>

definition sort_result ::
  "string list \<Rightarrow> condition \<Rightarrow> 'g lineage_obj list \<Rightarrow> error + 'g lineage_obj list" where
  "sort_result field_mapping condition result =
     (case map_of condition ''sorted_name'' of
        None \<Rightarrow> Inr result
      | Some (Exprs es) \<Rightarrow> Inl TypeError
      | Some (Scalar PNone) \<Rightarrow> Inl AttributeError
      | Some (Scalar (PInt i)) \<Rightarrow> Inl AttributeError
      | Some (Scalar (PStr sorted_name)) \<Rightarrow>
          if is_valid_field field_mapping sorted_name then Inl LineageQuerierParamException
          else
            let sorted_type = map_of condition ''sorted_type'';
                reverse = (sorted_type = Some (Scalar (PStr ''descending'')))
            in py_sorted (cmp sorted_name) reverse result)"

text \<open>Lines 291 to 304: the sequence whose length is reported as \<open>count\<close>.\<close>

definition filter_and_sort ::
  "string list \<Rightarrow> condition \<Rightarrow> 'g lineage_obj list \<Rightarrow> error + 'g lineage_obj list" where
  "filter_and_sort field_mapping condition objs =
     (case py_filter (filter_obj field_mapping condition) objs of
        Inl e \<Rightarrow> Inl e
      | Inr result \<Rightarrow> sort_result field_mapping condition result)"

subsection \<open>\<open>Querier._handle_limit_and_offset\<close>\<close>

text \<open>\<open>xs[i:j]\<close> for integers: a negative bound counts from the end, and bounds are clipped.\<close>

definition py_slice :: "'a list \<Rightarrow> int \<Rightarrow> int \<Rightarrow> 'a list" where
  "py_slice xs i j =
     (let n = int (length xs);
          lo = (if i < 0 then max (i + n) 0 else min i n);
          hi = (if j < 0 then max (j + n) 0 else min j n)
      in take (nat (hi - lo)) (drop (nat lo) xs))"

text \<open>
  The products \<open>offset * limit\<close> and \<open>limit * (offset + 1)\<close> are slice bounds: unless
  both values are integers, forming them or slicing with them raises \<open>TypeError\<close>.
\<close>

definition handle_limit_and_offset :: "condition \<Rightarrow> 'a list \<Rightarrow> error + 'a list" where
  "handle_limit_and_offset condition result =
     (let offset = (case map_of condition ''offset'' of None \<Rightarrow> Scalar (PInt 0) | Some v \<Rightarrow> v);
          limit = (case map_of condition ''limit'' of None \<Rightarrow> Scalar (PInt 10) | Some v \<Rightarrow> v)
      in if map_of condition ''offset'' = None \<and> map_of condition ''limit'' = None
         then Inr result
         else case (offset, limit) of
                (Scalar (PInt off), Scalar (PInt lim)) \<Rightarrow>
                  Inr (py_slice result (off * lim) (lim * (off + 1)))
              | _ \<Rightarrow> Inl TypeError)"

subsection \<open>The two queries\<close>

text \<open>
  The projections \<open>to_dataset_lineage_dict\<close>, \<open>to_filtration_dict\<close> and
  \<open>get_summary_info\<close> belong to \<open>LineageObj\<close>; a projected object is the object under
  the name of its projection. Only the retry pass at its start changes the object: a
  query that returns leaves the state the pass returned, and a query that raises leaves
  the state \<open>parse_fail_summary_logs_left\<close> gives.
\<close>

datatype 'g projection =
    DatasetLineageDict "'g lineage_obj"
  | FiltrationDict "'g lineage_obj"
  | SummaryInfo "'g lineage_obj" "string list"

record 'g lineage_info =
  object :: "'g projection list"
  count :: nat

definition filter_summary_lineage ::
  "string list \<Rightarrow> 'g analyzer \<Rightarrow> condition option \<Rightarrow> 'g querier \<Rightarrow>
     error + ('g lineage_info \<times> 'g querier)" where
  "filter_summary_lineage field_mapping analyzer cond q =
     (case parse_fail_summary_logs analyzer q of
        Inl e \<Rightarrow> Inl e
      | Inr q' \<Rightarrow>
          let condition = (case cond of None \<Rightarrow> [] | Some c \<Rightarrow> c) in
          (case filter_and_sort field_mapping condition (lineage_objects q') of
             Inl e \<Rightarrow> Inl e
           | Inr result \<Rightarrow>
               (case handle_limit_and_offset condition result of
                  Inl e \<Rightarrow> Inl e
                | Inr offset_result \<Rightarrow>
                    let search_type = map_of condition ''lineage_type'' in
                    Inr (\<lparr>object =
                            map (\<lambda>item. if search_type = Some (Scalar (PStr ''dataset''))
                                        then DatasetLineageDict item else FiltrationDict item)
                              offset_result,
                          count = length result\<rparr>, q'))))"

definition get_summary_lineage ::
  "'g analyzer \<Rightarrow> string option \<Rightarrow> string list option \<Rightarrow> 'g querier \<Rightarrow>
     error + ('g projection list \<times> 'g querier)" where
  "get_summary_lineage analyzer dir keys q =
     (case parse_fail_summary_logs analyzer q of
        Inl e \<Rightarrow> Inl e
      | Inr q' \<Rightarrow>
          (case (case keys of
                   None \<Rightarrow> Inr get_key_list
                 | Some ks \<Rightarrow>
                     if list_all is_valid_filter_key ks then Inr ks
                     else Inl LineageQuerierParamException) of
             Inl e \<Rightarrow> Inl e
           | Inr filter_keys \<Rightarrow>
               (case dir of
                  None \<Rightarrow>
                    Inr (map (\<lambda>item. SummaryInfo item filter_keys) (lineage_objects q'), q')
                | Some d \<Rightarrow>
                    (case index_map q' d of
                       None \<Rightarrow> Inl LineageQuerierParamException
                     | Some index \<Rightarrow>
                         if index < length (lineage_objects q')
                         then Inr ([SummaryInfo (lineage_objects q' ! index) filter_keys], q')
                         else Inl IndexError))))"

subsection \<open>Auxiliary notions for the proofs about the grouping pass\<close>

text \<open>
  A group table reached by the loop has distinct tags, each the decimal form of a
  positive integer, distinct representatives, and keeps the seed entry. \<open>resolve\<close> is
  the tag the loop gives a graph at a table, \<open>step_group\<close> the table afterwards.
\<close>

definition keys_ok :: "'g group \<Rightarrow> bool" where
  "keys_ok grp \<longleftrightarrow> (\<forall>k \<in> fst ` set grp. \<exists>n\<ge>1. k = py_str n)"

definition good_group :: "'g group \<Rightarrow> bool" where
  "good_group grp \<longleftrightarrow>
     keys_ok grp \<and> distinct (map fst grp) \<and> distinct (map snd grp) \<and> (''1'', None) \<in> set grp"

definition minted :: "'g group \<Rightarrow> string" where
  "minted grp = (case new_mark grp of Inl e \<Rightarrow> ''0'' | Inr m \<Rightarrow> m)"

definition resolve :: "'g group \<Rightarrow> 'g option \<Rightarrow> string" where
  "resolve grp g = (if find_mark grp g = ''0'' then minted grp else find_mark grp g)"

definition settled :: "'g group \<Rightarrow> 'g option \<Rightarrow> bool" where
  "settled grp g \<longleftrightarrow> g \<in> snd ` set grp \<or> minted grp \<in> fst ` set grp"

definition step_group :: "'g group \<Rightarrow> 'g option \<Rightarrow> 'g group" where
  "step_group grp g = (if find_mark grp g = ''0'' then AList.update (minted grp) g grp else grp)"

subsection \<open>Auxiliary notions for the statements about ingestion and retry\<close>

text \<open>
  The core of a lineage object is what the analyzer delivered for it together with its
  directory, that is everything but its mark. \<open>new_cores\<close> lists the cores of the
  paths that parse, in order; \<open>register\<close> enters directories into an index map under
  consecutive indices; \<open>paths_of\<close> lists the paths of a constructor argument.
\<close>

type_synonym 'g core = "string \<times> (string \<times> pyval) list \<times> 'g option"

definition core :: "'g lineage_obj \<Rightarrow> 'g core" where
  "core obj = (summary_dir obj, field_values obj, dataset_graph obj)"

fun outcome_core :: "string \<Rightarrow> 'g parse_outcome \<Rightarrow> 'g core option" where
  "outcome_core p (Parsed vals g) = Some (dirname p, vals, g)"
| "outcome_core p Retryable = None"
| "outcome_core p Uncaught = None"

definition new_cores :: "'g analyzer \<Rightarrow> string list \<Rightarrow> 'g core list" where
  "new_cores analyzer ps = List.map_filter (\<lambda>p. outcome_core p (analyzer p)) ps"

fun is_retryable :: "'g parse_outcome \<Rightarrow> bool" where
  "is_retryable Retryable = True"
| "is_retryable (Parsed vals g) = False"
| "is_retryable Uncaught = False"

fun is_parsed :: "'g parse_outcome \<Rightarrow> bool" where
  "is_parsed (Parsed vals g) = True"
| "is_parsed Retryable = False"
| "is_parsed Uncaught = False"

fun register :: "nat \<Rightarrow> string list \<Rightarrow> (string \<rightharpoonup> nat) \<Rightarrow> (string \<rightharpoonup> nat)" where
  "register n [] m = m"
| "register n (d # ds) m = register (Suc n) ds (m(d \<mapsto> n))"

fun paths_of :: "summary_path \<Rightarrow> string list" where
  "paths_of (PathStr s) = [s]"
| "paths_of (PathList ps) = ps"
| "paths_of (PathOther b) = []"

text \<open>
  The states of a querier object: the one its constructor returns, and the one each
  retry pass leaves, whether the pass returned or was aborted by an exception.
  \<open>paths\<close> are the paths given to the constructor.
\<close>

inductive reachable :: "string list \<Rightarrow> 'g querier \<Rightarrow> bool" for paths :: "string list" where
  reachable_init: "init analyzer sp = Inr q \<Longrightarrow> paths_of sp = paths \<Longrightarrow> reachable paths q"
| reachable_retry:
    "reachable paths q \<Longrightarrow> reachable paths (parse_fail_summary_logs_left analyzer q)"

text \<open>The states of a querier object none of whose retry passes was aborted.\<close>

inductive reachable_unaborted :: "string list \<Rightarrow> 'g querier \<Rightarrow> bool"
  for paths :: "string list" where
  unaborted_init:
    "init analyzer sp = Inr q \<Longrightarrow> paths_of sp = paths \<Longrightarrow> reachable_unaborted paths q"
| unaborted_retry:
    "reachable_unaborted paths q \<Longrightarrow> parse_fail_summary_logs analyzer q = Inr q' \<Longrightarrow>
     reachable_unaborted paths q'"

definition index_inv :: "'g querier \<Rightarrow> bool" where
  "index_inv q \<longleftrightarrow>
     qsize q = length (lineage_objects q)
     \<and> (\<forall>i<length (lineage_objects q).
           index_map q (summary_dir (lineage_objects q ! i)) = Some i)
     \<and> (\<forall>d i. index_map q d = Some i \<longrightarrow>
           i < length (lineage_objects q) \<and> summary_dir (lineage_objects q ! i) = d)
     \<and> distinct (map summary_dir (lineage_objects q) @ map dirname (parse_failed_paths q))"

subsection \<open>Auxiliary notions for the statements about the filter query\<close>

text \<open>
  A condition without its keys \<open>limit\<close> and \<open>offset\<close>; and a condition whose \<open>limit\<close>
  and \<open>offset\<close>, where present, are integers.
\<close>

definition drop_paging :: "condition \<Rightarrow> condition" where
  "drop_paging c = filter (\<lambda>kv. fst kv \<noteq> ''limit'' \<and> fst kv \<noteq> ''offset'') c"

definition paging_ok :: "condition \<Rightarrow> bool" where
  "paging_ok c \<longleftrightarrow>
     (case map_of c ''offset'' of None \<Rightarrow> True | Some (Scalar (PInt i)) \<Rightarrow> True | Some v \<Rightarrow> False)
     \<and> (case map_of c ''limit'' of None \<Rightarrow> True | Some (Scalar (PInt i)) \<Rightarrow> True | Some v \<Rightarrow> False)"

subsection \<open>Auxiliary notions for the proofs about sorting\<close>

text \<open>
  A rank of the values in a linear order that agrees with the comparator \<open>_cmp\<close>
  wherever the comparator does not raise, that is on two values that are not an integer
  and a string; and the three-way comparison of a linear order.
\<close>

fun rank :: "pyval \<Rightarrow> nat \<times> int \<times> string" where
  "rank PNone = (0, 0, [])"
| "rank (PInt i) = (1, i, [])"
| "rank (PStr s) = (2, 0, s)"

definition three_way :: "'a::linorder \<Rightarrow> 'a \<Rightarrow> int" where
  "three_way a b = (if a < b then - 1 else if a = b then 0 else 1)"

fun comparable :: "pyval \<Rightarrow> pyval \<Rightarrow> bool" where
  "comparable (PInt i) (PStr s) = False"
| "comparable (PStr s) (PInt i) = False"
| "comparable a b = True"

text \<open>Two records with the same \<open>batch_size\<close>, and three records as in the sort scenario.\<close>

definition sized_obj :: "string \<Rightarrow> pyval \<Rightarrow> nat lineage_obj" where
  "sized_obj d v =
     \<lparr>summary_dir = d, field_values = [(''batch_size'', v)], dataset_graph = None,
      dataset_mark = Some ''1''\<rparr>"

definition tied_objs :: "nat lineage_obj list" where
  "tied_objs = [sized_obj ''/a'' (PInt 32), sized_obj ''/b'' (PInt 32)]"

definition mixed_objs :: "nat lineage_obj list" where
  "mixed_objs = [sized_obj ''/a'' (PInt 9), sized_obj ''/b'' PNone, sized_obj ''/c'' (PInt 7)]"

definition by_batch_size :: condition where
  "by_batch_size = [(''sorted_name'', Scalar (PStr ''batch_size''))]"

definition by_batch_size_descending :: condition where
  "by_batch_size_descending =
     [(''sorted_name'', Scalar (PStr ''batch_size'')),
      (''sorted_type'', Scalar (PStr ''descending''))]"

subsection \<open>Example inputs\<close>

definition graph_obj :: "nat option \<Rightarrow> nat lineage_obj" where
  "graph_obj g = \<lparr>summary_dir = [], field_values = [], dataset_graph = g, dataset_mark = None\<rparr>"

text \<open>
  Two logs in two directories. At first the log of \<open>run1\<close> parses and the log of
  \<open>run2\<close> lacks an event; later both parse.
\<close>

definition logs_at_first :: "nat analyzer" where
  "logs_at_first p =
     (if p = ''/base/run1/a.log'' then Parsed [(''batch_size'', PInt 32)] None
      else Retryable)"

definition logs_later :: "nat analyzer" where
  "logs_later p =
     (if p = ''/base/run1/a.log'' then Parsed [(''batch_size'', PInt 32)] None
      else Parsed [(''batch_size'', PInt 64)] (Some 7))"

definition two_logs :: "string list" where
  "two_logs = [''/base/run1/a.log'', ''/base/run2/b.log'']"

text \<open>The querier built from the two logs at first.\<close>

definition querier_at_first :: "nat querier" where
  "querier_at_first =
     \<lparr>lineage_objects =
        [\<lparr>summary_dir = ''/base/run1'', field_values = [(''batch_size'', PInt 32)],
          dataset_graph = None, dataset_mark = Some ''1''\<rparr>],
      index_map = [''/base/run1'' \<mapsto> 0],
      parse_failed_paths = [''/base/run2/b.log''],
      qsize = 1\<rparr>"

text \<open>
  Three logs in three directories. At first only the log of \<open>/a\<close> parses. Then the log
  of \<open>/b\<close> parses and the analyzer raises an exception that is not caught on the log
  of \<open>/c\<close>. At last all three parse.
\<close>

definition three_logs :: "string list" where
  "three_logs = [''/a/log'', ''/b/log'', ''/c/log'']"

definition only_a :: "nat analyzer" where
  "only_a p = (if p = ''/a/log'' then Parsed [] None else Retryable)"

definition c_uncaught :: "nat analyzer" where
  "c_uncaught p = (if p = ''/c/log'' then Uncaught else Parsed [] None)"

definition all_parse :: "nat analyzer" where
  "all_parse p = Parsed [] None"

definition querier_only_a :: "nat querier" where
  "querier_only_a =
     \<lparr>lineage_objects =
        [\<lparr>summary_dir = ''/a'', field_values = [], dataset_graph = None,
          dataset_mark = Some ''1''\<rparr>],
      index_map = [''/a'' \<mapsto> 0],
      parse_failed_paths = [''/b/log'', ''/c/log''],
      qsize = 1\<rparr>"

definition querier_after_abort :: "nat querier" where
  "querier_after_abort = parse_fail_summary_logs_left c_uncaught querier_only_a"

definition querier_after_abort_and_retry :: "nat querier" where
  "querier_after_abort_and_retry = parse_fail_summary_logs_left all_parse querier_after_abort"

section \<open>Properties\<close>

subsection \<open>Decimal tags\<close>

lemma digit_char_is_digit: "d < 10 \<Longrightarrow> is_digit (digit_char d)"
  by (simp add: is_digit_def digit_char_def)

lemma digit_val_digit_char: "d < 10 \<Longrightarrow> digit_val (digit_char d) = d"
  by (simp add: digit_val_def digit_char_def)

lemma digits_nonempty: "digits n \<noteq> []"
  by (subst digits.simps) simp

lemma digits_all_digit: "list_all is_digit (digits n)"
proof (induction n rule: digits.induct)
  case (1 n)
  show ?case
  proof (cases "n < 10")
    case True
    then show ?thesis by (subst digits.simps) (simp add: digit_char_is_digit)
  next
    case False
    with 1 show ?thesis by (subst digits.simps) (simp add: digit_char_is_digit)
  qed
qed

lemma parse_digits_append: "parse_digits acc (xs @ ys) = parse_digits (parse_digits acc xs) ys"
  by (induction xs arbitrary: acc) simp_all

lemma parse_digits_digits: "parse_digits 0 (digits n) = n"
proof (induction n rule: digits.induct)
  case (1 n)
  show ?case
  proof (cases "n < 10")
    case True
    then show ?thesis by (subst digits.simps) (simp add: digit_val_digit_char)
  next
    case False
    with 1 show ?thesis
      by (subst digits.simps) (simp add: parse_digits_append digit_val_digit_char)
  qed
qed

lemma parse_unsigned_digits: "parse_unsigned (digits n) = Some n"
  by (simp add: parse_unsigned_def digits_nonempty digits_all_digit parse_digits_digits)

lemma is_digit_not_sign: "is_digit c \<Longrightarrow> c \<noteq> CHR ''-'' \<and> c \<noteq> CHR ''+''"
  by (auto simp: is_digit_def)

lemma py_int_py_str: "0 \<le> i \<Longrightarrow> py_int (py_str i) = Some i"
proof -
  assume i: "0 \<le> i"
  obtain c cs where d: "digits (nat i) = c # cs"
    using digits_nonempty [of "nat i"] by (cases "digits (nat i)") auto
  have "is_digit c" using digits_all_digit [of "nat i"] d by simp
  then have "c \<noteq> CHR ''-''" "c \<noteq> CHR ''+''" using is_digit_not_sign by auto
  moreover have "parse_unsigned (c # cs) = Some (nat i)"
    using parse_unsigned_digits [of "nat i"] d by simp
  ultimately show ?thesis using i d by (simp add: py_str_def)
qed

lemma py_str_neq_0: "1 \<le> i \<Longrightarrow> py_str i \<noteq> ''0''"
proof
  assume i: "1 \<le> i" and e: "py_str i = ''0''"
  have "py_int (py_str i) = Some i" using i by (simp add: py_int_py_str)
  moreover have "py_int ''0'' = Some 0" by (simp add: parse_unsigned_def is_digit_def digit_val_def)
  ultimately show False using e i by simp
qed

lemma py_str_1: "py_str 1 = ''1''"
  by code_simp

lemma py_str_neq_1: "2 \<le> i \<Longrightarrow> py_str i \<noteq> ''1''"
proof
  assume i: "2 \<le> i" and e: "py_str i = ''1''"
  have "py_int (py_str i) = Some i" using i by (simp add: py_int_py_str)
  moreover have "py_int (py_str 1) = Some 1" by (simp add: py_int_py_str)
  ultimately show False using e i by (simp add: py_str_1)
qed

lemma py_max_mem: "py_max xs = Some m \<Longrightarrow> m \<in> set xs"
proof -
  have "fold (\<lambda>item m. if m < item then item else m) ys y \<in> set (y # ys)" for ys and y :: string
    by (induction ys arbitrary: y) auto
  then show "py_max xs = Some m \<Longrightarrow> m \<in> set xs"
    by (cases xs) auto
qed

lemma py_max_None: "py_max xs = None \<longleftrightarrow> xs = []"
  by (cases xs) auto

subsection \<open>The group table of the grouping pass\<close>

lemma new_mark_good:
  assumes "keys_ok grp" "grp \<noteq> []"
  shows "\<exists>n\<ge>2. new_mark grp = Inr (py_str n)"
proof -
  obtain m where m: "py_max (map fst grp) = Some m"
    using assms(2) py_max_None [of "map fst grp"] by (cases "py_max (map fst grp)") auto
  then have "m \<in> fst ` set grp" using py_max_mem [OF m] by simp
  then obtain n where n: "1 \<le> n" "m = py_str n" using assms(1) by (auto simp: keys_ok_def)
  then have "py_int m = Some n" by (simp add: py_int_py_str)
  then have "new_mark grp = Inr (py_str (n + 1))" using m by (simp add: new_mark_def)
  then show ?thesis using n(1) by (intro exI [of _ "n + 1"]) simp
qed

lemma new_mark_keys: "map fst grp = map fst grp' \<Longrightarrow> new_mark grp = new_mark grp'"
  by (simp add: new_mark_def)

lemma find_mark_notin: "g \<notin> snd ` set grp \<Longrightarrow> find_mark grp g = ''0''"
  by (induction grp) auto

lemma find_mark_in:
  "distinct (map snd grp) \<Longrightarrow> (t, g) \<in> set grp \<Longrightarrow> find_mark grp g = t"
  by (induction grp) (auto simp: image_iff)

lemma set_update_distinct:
  "distinct (map fst grp) \<Longrightarrow>
   set (AList.update k v grp) = insert (k, v) {p \<in> set grp. fst p \<noteq> k}"
  by (induction grp) (auto simp: image_iff)

lemma distinct_snd_update:
  "distinct (map fst grp) \<Longrightarrow> distinct (map snd grp) \<Longrightarrow> v \<notin> snd ` set grp \<Longrightarrow>
   distinct (map snd (AList.update k v grp))"
  by (induction grp) (auto simp: image_iff set_update_distinct)

lemma snd_unique:
  "distinct (map snd grp) \<Longrightarrow> (k, h) \<in> set grp \<Longrightarrow> (k', h) \<in> set grp \<Longrightarrow> k = k'"
  using inj_onD [of snd "set grp" "(k, h)" "(k', h)"] by (simp add: distinct_map)

lemma good_zero_notin: "keys_ok grp \<Longrightarrow> ''0'' \<notin> fst ` set grp"
  using py_str_neq_0 by (fastforce simp: keys_ok_def)

lemma good_nonempty: "good_group grp \<Longrightarrow> grp \<noteq> []"
  by (auto simp: good_group_def)

lemma minted_good:
  assumes "good_group grp"
  shows "\<exists>n\<ge>2. new_mark grp = Inr (py_str n) \<and> minted grp = py_str n"
proof -
  obtain n where "2 \<le> n" "new_mark grp = Inr (py_str n)"
    using new_mark_good [of grp] assms good_nonempty [OF assms] by (auto simp: good_group_def)
  then show ?thesis by (auto simp: minted_def)
qed

lemma minted_neq:
  assumes "good_group grp"
  shows "minted grp \<noteq> ''0''" and "minted grp \<noteq> ''1''"
proof -
  obtain n where n: "2 \<le> n" "minted grp = py_str n" using minted_good [OF assms] by auto
  show "minted grp \<noteq> ''0''" using n py_str_neq_0 [of n] by simp
  show "minted grp \<noteq> ''1''" using n py_str_neq_1 [of n] by simp
qed

lemma find_mark_good:
  assumes "good_group grp" "(t, g) \<in> set grp"
  shows "find_mark grp g = t" and "t \<noteq> ''0''"
proof -
  show "find_mark grp g = t" using assms find_mark_in by (auto simp: good_group_def)
  have "t \<in> fst ` set grp" using assms(2) by force
  moreover have "''0'' \<notin> fst ` set grp"
    using good_zero_notin [of grp] assms(1) by (simp add: good_group_def)
  ultimately show "t \<noteq> ''0''" by blast
qed

lemma minted_update_same:
  "minted grp \<in> fst ` set grp \<Longrightarrow> minted (AList.update (minted grp) g grp) = minted grp"
proof -
  assume "minted grp \<in> fst ` set grp"
  then have "map fst (AList.update (minted grp) g grp) = map fst grp"
    by (simp add: update_keys)
  then show ?thesis using new_mark_keys [of "AList.update (minted grp) g grp" grp]
    by (simp add: minted_def)
qed

lemma good_step:
  assumes "good_group grp"
  shows "good_group (step_group grp g)"
proof (cases "find_mark grp g = ''0''")
  case False
  then show ?thesis using assms by (simp add: step_group_def)
next
  case True
  obtain n where n: "2 \<le> n" "minted grp = py_str n" using minted_good [OF assms] by auto
  have dk: "distinct (map fst grp)" and dv: "distinct (map snd grp)"
    and ko: "keys_ok grp" and one: "(''1'', None) \<in> set grp"
    using assms by (auto simp: good_group_def)
  have notin: "g \<notin> snd ` set grp"
  proof
    assume "g \<in> snd ` set grp"
    then obtain t where "(t, g) \<in> set grp" by force
    then show False using find_mark_good [OF assms] True by auto
  qed
  let ?grp' = "AList.update (minted grp) g grp"
  have s: "set ?grp' = insert (minted grp, g) {p \<in> set grp. fst p \<noteq> minted grp}"
    using dk by (rule set_update_distinct)
  have "keys_ok ?grp'"
    unfolding keys_ok_def
  proof
    fix k assume "k \<in> fst ` set ?grp'"
    then have "k = minted grp \<or> k \<in> fst ` set grp" using s by auto
    then show "\<exists>n\<ge>1. k = py_str n"
    proof
      assume "k = minted grp"
      then show ?thesis using n by (intro exI [of _ n]) simp
    next
      assume "k \<in> fst ` set grp"
      then show ?thesis using ko unfolding keys_ok_def by blast
    qed
  qed
  moreover have "distinct (map fst ?grp')" using dk by (simp add: distinct_update)
  moreover have "distinct (map snd ?grp')" using dk dv notin by (rule distinct_snd_update)
  moreover have "(''1'', None) \<in> set ?grp'" using s one minted_neq(2) [OF assms] by auto
  ultimately show ?thesis using True by (simp add: step_group_def good_group_def)
qed

lemma step_self:
  assumes "good_group grp"
  shows "resolve (step_group grp g) g = resolve grp g \<and> settled (step_group grp g) g"
proof (cases "find_mark grp g = ''0''")
  case False
  then have "g \<in> snd ` set grp" using find_mark_notin [of g grp] by auto
  then show ?thesis using False by (simp add: step_group_def settled_def)
next
  case True
  let ?grp' = "AList.update (minted grp) g grp"
  have g': "good_group ?grp'" using good_step [OF assms, of g] True by (simp add: step_group_def)
  have dk: "distinct (map fst grp)" using assms by (simp add: good_group_def)
  have mem: "(minted grp, g) \<in> set ?grp'" using set_update_distinct [OF dk] by simp
  have "find_mark ?grp' g = minted grp" using find_mark_good(1) [OF g' mem] .
  moreover have "g \<in> snd ` set ?grp'" using mem by force
  ultimately show ?thesis
    using True minted_neq(1) [OF assms] by (simp add: step_group_def resolve_def settled_def)
qed

lemma step_resolve:
  assumes good: "good_group grp" and st: "settled grp h"
  shows "resolve (step_group grp g) h = resolve grp h \<and> settled (step_group grp g) h"
proof (cases "find_mark grp g = ''0''")
  case False
  then show ?thesis using st by (simp add: step_group_def)
next
  case True
  let ?m = "minted grp"
  let ?grp' = "AList.update ?m g grp"
  have step: "step_group grp g = ?grp'" using True by (simp add: step_group_def)
  have g': "good_group ?grp'" using good_step [OF good, of g] step by simp
  have dk: "distinct (map fst grp)" and dv: "distinct (map snd grp)"
    using good by (auto simp: good_group_def)
  have s: "set ?grp' = insert (?m, g) {p \<in> set grp. fst p \<noteq> ?m}"
    using dk by (rule set_update_distinct)
  have gnotin: "g \<notin> snd ` set grp"
  proof
    assume "g \<in> snd ` set grp"
    then obtain t where "(t, g) \<in> set grp" by force
    then show False using find_mark_good [OF good] True by auto
  qed
  show ?thesis
  proof (cases "h \<in> snd ` set grp")
    case True
    then obtain t where t: "(t, h) \<in> set grp" by force
    have ft: "find_mark grp h = t" "t \<noteq> ''0''" using find_mark_good [OF good t] by auto
    have hg: "h \<noteq> g" using True gnotin by auto
    show ?thesis
    proof (cases "t = ?m")
      case False
      then have mem: "(t, h) \<in> set ?grp'" using s t by auto
      have "find_mark ?grp' h = t" using find_mark_good(1) [OF g' mem] .
      moreover have "h \<in> snd ` set ?grp'" using mem by force
      ultimately show ?thesis using ft step by (simp add: resolve_def settled_def)
    next
      case tm: True
      have min: "?m \<in> fst ` set grp" using t tm by force
      have "h \<notin> snd ` set ?grp'"
      proof
        assume "h \<in> snd ` set ?grp'"
        then obtain k where "(k, h) \<in> set ?grp'" by force
        then have "(k, h) \<in> set grp" "k \<noteq> ?m" using s hg by auto
        then show False using snd_unique [OF dv _ t] tm by auto
      qed
      then have "find_mark ?grp' h = ''0''" by (rule find_mark_notin)
      moreover have "minted ?grp' = ?m" using min by (rule minted_update_same)
      moreover have "?m \<in> fst ` set ?grp'" using s by force
      ultimately show ?thesis using ft tm step by (simp add: resolve_def settled_def)
    qed
  next
    case False
    then have min: "?m \<in> fst ` set grp" using st by (simp add: settled_def)
    have fh: "find_mark grp h = ''0''" using False by (rule find_mark_notin)
    have m': "minted ?grp' = ?m" using min by (rule minted_update_same)
    have mk: "?m \<in> fst ` set ?grp'" using s by force
    show ?thesis
    proof (cases "h = g")
      case True
      then show ?thesis using step_self [OF good, of g] by simp
    next
      case hg: False
      have "h \<notin> snd ` set ?grp'" using s False hg by auto
      then have "find_mark ?grp' h = ''0''" by (rule find_mark_notin)
      then show ?thesis using fh m' mk step by (simp add: resolve_def settled_def)
    qed
  qed
qed

lemma mark_loop_step:
  assumes "good_group grp"
  shows "mark_loop grp (l # ls) =
           (case mark_loop (step_group grp (dataset_graph l)) ls of
              Inl e \<Rightarrow> Inl e
            | Inr rest' \<Rightarrow> Inr (l\<lparr>dataset_mark := Some (resolve grp (dataset_graph l))\<rparr> # rest'))"
proof -
  obtain n where n: "new_mark grp = Inr (py_str n)" "minted grp = py_str n"
    using minted_good [OF assms] by auto
  show ?thesis
  proof (cases "find_mark grp (dataset_graph l) = ''0''")
    case True
    then have "resolve grp (dataset_graph l) = py_str n" using n by (simp add: resolve_def)
    then show ?thesis using True n by (simp add: step_group_def split: sum.splits)
  next
    case False
    then have "resolve grp (dataset_graph l) = find_mark grp (dataset_graph l)"
      by (simp add: resolve_def)
    then show ?thesis using False by (simp add: step_group_def split: sum.splits)
  qed
qed

lemma mark_loop_inv:
  assumes "good_group grp"
  shows "\<exists>objs' grp'. mark_loop grp objs = Inr objs' \<and> good_group grp'
           \<and> length objs' = length objs
           \<and> (\<forall>i<length objs. objs' ! i =
                 (objs ! i)\<lparr>dataset_mark := Some (resolve grp' (dataset_graph (objs ! i)))\<rparr>)
           \<and> (\<forall>h. settled grp h \<longrightarrow> resolve grp' h = resolve grp h \<and> settled grp' h)"
  using assms
proof (induction objs arbitrary: grp)
  case Nil
  then show ?case by (intro exI [of _ "[]"] exI [of _ grp]) simp
next
  case (Cons l ls)
  let ?g = "dataset_graph l"
  let ?grp1 = "step_group grp ?g"
  have g1: "good_group ?grp1" using good_step [OF Cons.prems] .
  from Cons.IH [OF g1] obtain objs1 grp' where
    ml: "mark_loop ?grp1 ls = Inr objs1" and gg: "good_group grp'"
    and len: "length objs1 = length ls"
    and nth: "\<forall>i<length ls. objs1 ! i =
                 (ls ! i)\<lparr>dataset_mark := Some (resolve grp' (dataset_graph (ls ! i)))\<rparr>"
    and keep: "\<forall>h. settled ?grp1 h \<longrightarrow> resolve grp' h = resolve ?grp1 h \<and> settled grp' h"
    by blast
  let ?objs' = "l\<lparr>dataset_mark := Some (resolve grp ?g)\<rparr> # objs1"
  have run: "mark_loop grp (l # ls) = Inr ?objs'"
    using mark_loop_step [OF Cons.prems, of l ls] ml by simp
  have self: "resolve grp' ?g = resolve grp ?g"
    using step_self [OF Cons.prems, of ?g] keep by auto
  have elems: "\<forall>i<length (l # ls). ?objs' ! i =
                 ((l # ls) ! i)\<lparr>dataset_mark := Some (resolve grp' (dataset_graph ((l # ls) ! i)))\<rparr>"
  proof (intro allI impI)
    fix i assume "i < length (l # ls)"
    then show "?objs' ! i =
       ((l # ls) ! i)\<lparr>dataset_mark := Some (resolve grp' (dataset_graph ((l # ls) ! i)))\<rparr>"
      using nth self by (cases i) auto
  qed
  have keep': "\<forall>h. settled grp h \<longrightarrow> resolve grp' h = resolve grp h \<and> settled grp' h"
    using step_resolve [OF Cons.prems] keep by metis
  show ?case
    using run gg len elems keep' by (intro exI [of _ ?objs'] exI [of _ grp']) simp
qed

lemma good_seed: "good_group [(''1'', None)]"
  using py_str_1 by (auto simp: good_group_def keys_ok_def intro!: exI [of _ 1])

lemma resolve_seed: "resolve [(''1'', None)] None = ''1''"
  by (simp add: resolve_def)

lemma settled_seed: "settled [(''1'', None)] None"
  by (simp add: settled_def)

lemma add_dataset_mark_total:
  "\<exists>objs'. add_dataset_mark objs = Inr objs' \<and> length objs' = length objs
      \<and> (\<forall>i<length objs. \<exists>m. objs' ! i = (objs ! i)\<lparr>dataset_mark := Some m\<rparr>)"
  using mark_loop_inv [OF good_seed, of objs] unfolding add_dataset_mark_def by blast

subsection \<open>Slices\<close>

lemma py_slice_nat: "py_slice xs (int a) (int b) = take (b - a) (drop a xs)"
proof -
  let ?n = "length xs"
  have lo: "(if int a < 0 then max (int a + int ?n) 0 else min (int a) (int ?n)) = int (min a ?n)"
    by simp
  have hi: "(if int b < 0 then max (int b + int ?n) 0 else min (int b) (int ?n)) = int (min b ?n)"
    by simp
  have "py_slice xs (int a) (int b) = take (nat (int (min b ?n) - int (min a ?n))) (drop (nat (int (min a ?n))) xs)"
    unfolding py_slice_def Let_def lo hi ..
  also have "\<dots> = take (min b ?n - min a ?n) (drop (min a ?n) xs)"
  proof -
    have "nat (int x - int y) = x - y" for x y :: nat by arith
    then show ?thesis by (simp only: nat_int)
  qed
  also have "\<dots> = take (b - a) (drop a xs)"
  proof (cases "a \<le> ?n")
    case True
    have "take (min b ?n - a) (drop a xs) = take (b - a) (drop a xs)"
    proof (cases "b \<le> ?n")
      case True
      then show ?thesis by (simp add: min_def)
    next
      case False
      then show ?thesis by (simp add: min_def)
    qed
    then show ?thesis using True by (simp add: min_def)
  next
    case False
    then show ?thesis by (simp add: min_def)
  qed
  finally show ?thesis .
qed

lemma py_slice_length: "length (py_slice xs i j) \<le> length xs"
proof -
  have "length (take n (drop k xs)) \<le> length xs" for n k
    by (simp add: min_def) arith
  then show ?thesis unfolding py_slice_def Let_def by blast
qed

lemma handle_limit_and_offset_ints:
  assumes "map_of condition ''offset'' = None \<or> (\<exists>i. map_of condition ''offset'' = Some (Scalar (PInt i)))"
    and "map_of condition ''limit'' = None \<or> (\<exists>i. map_of condition ''limit'' = Some (Scalar (PInt i)))"
  shows "\<exists>window. handle_limit_and_offset condition result = Inr window
           \<and> length window \<le> length result"
  using assms py_slice_length [of result]
  by (auto simp: handle_limit_and_offset_def Let_def)

subsection \<open>Parsing one log, and the two loops over paths\<close>

lemma new_cores_Nil: "new_cores analyzer [] = []"
  by (simp add: new_cores_def)

lemma new_cores_Cons:
  "new_cores analyzer (p # ps) =
     (case analyzer p of Parsed vals g \<Rightarrow> (dirname p, vals, g) # new_cores analyzer ps
      | Retryable \<Rightarrow> new_cores analyzer ps | Uncaught \<Rightarrow> new_cores analyzer ps)"
  by (cases "analyzer p") (simp_all add: new_cores_def)

lemma new_cores_dirs:
  "map fst (new_cores analyzer ps) = map dirname (filter (\<lambda>p. is_parsed (analyzer p)) ps)"
proof (induction ps)
  case Nil
  show ?case by (simp add: new_cores_Nil)
next
  case (Cons p ps)
  then show ?case by (cases "analyzer p") (simp_all add: new_cores_Cons)
qed

lemma marks_only_core:
  assumes "length objs' = length objs"
    and "\<forall>i<length objs. \<exists>m. objs' ! i = (objs ! i)\<lparr>dataset_mark := Some m\<rparr>"
  shows "map core objs' = map core objs"
proof (rule nth_equalityI)
  show "length (map core objs') = length (map core objs)" using assms(1) by simp
next
  fix i assume "i < length (map core objs')"
  then have i: "i < length objs" using assms(1) by simp
  then obtain m where "objs' ! i = (objs ! i)\<lparr>dataset_mark := Some m\<rparr>" using assms(2) by blast
  then have "core (objs' ! i) = core (objs ! i)" by (simp add: core_def)
  then show "map core objs' ! i = map core objs ! i" using i assms(1) by simp
qed

lemma add_dataset_mark_core:
  "\<exists>objs'. add_dataset_mark objs = Inr objs' \<and> map core objs' = map core objs"
  using add_dataset_mark_total [of objs] marks_only_core by blast

lemma parse_summary_log_parsed:
  assumes "analyzer p = Parsed vals g"
  shows "\<exists>objs. parse_summary_log analyzer p idx save q =
            Inr (True, q\<lparr>lineage_objects := objs,
                          index_map := (index_map q)(dirname p \<mapsto> idx)\<rparr>)
          \<and> map core objs = map core (lineage_objects q) @ [(dirname p, vals, g)]"
proof -
  let ?new = "\<lparr>summary_dir = dirname p, field_values = vals,
                dataset_graph = g, dataset_mark = None\<rparr>"
  obtain objs where o: "add_dataset_mark (lineage_objects q @ [?new]) = Inr objs"
    and c: "map core objs = map core (lineage_objects q @ [?new])"
    using add_dataset_mark_core [of "lineage_objects q @ [?new]"] by blast
  have "parse_summary_log analyzer p idx save q =
          Inr (True, q\<lparr>lineage_objects := objs, index_map := (index_map q)(dirname p \<mapsto> idx)\<rparr>)"
    using assms o by (simp add: parse_summary_log_def)
  moreover have "map core objs = map core (lineage_objects q) @ [(dirname p, vals, g)]"
    using c by (simp add: core_def)
  ultimately show ?thesis by blast
qed

lemma parse_summary_log_retryable:
  "analyzer p = Retryable \<Longrightarrow>
   parse_summary_log analyzer p idx save q =
     Inr (False, if save then q\<lparr>parse_failed_paths := parse_failed_paths q @ [p]\<rparr> else q)"
  by (simp add: parse_summary_log_def)

lemma parse_summary_log_uncaught:
  "analyzer p = Uncaught \<Longrightarrow>
   parse_summary_log analyzer p idx save q = Inl UncaughtAnalyzerError"
  by (simp add: parse_summary_log_def)

lemma retry_loop_spec:
  assumes "\<forall>p\<in>set ps. analyzer p \<noteq> Uncaught"
  shows "\<exists>q'. retry_loop analyzer ps failed q =
                Inr (failed @ filter (\<lambda>p. is_retryable (analyzer p)) ps, q')
          \<and> map core (lineage_objects q') = map core (lineage_objects q) @ new_cores analyzer ps
          \<and> qsize q' = qsize q + length (new_cores analyzer ps)
          \<and> index_map q' = register (qsize q) (map fst (new_cores analyzer ps)) (index_map q)
          \<and> parse_failed_paths q' = parse_failed_paths q"
  using assms
proof (induction ps arbitrary: failed q)
  case Nil
  show ?case by (simp add: new_cores_Nil)
next
  case (Cons p ps)
  have rest: "\<forall>p\<in>set ps. analyzer p \<noteq> Uncaught" using Cons.prems by simp
  show ?case
  proof (cases "analyzer p")
    case (Parsed vals g)
    obtain objs where
      step: "parse_summary_log analyzer p (qsize q) False q =
               Inr (True, q\<lparr>lineage_objects := objs,
                             index_map := (index_map q)(dirname p \<mapsto> qsize q)\<rparr>)"
      and c: "map core objs = map core (lineage_objects q) @ [(dirname p, vals, g)]"
      using parse_summary_log_parsed [of analyzer p vals g "qsize q" False q] Parsed by blast
    let ?q1 = "q\<lparr>lineage_objects := objs,
                  index_map := (index_map q)(dirname p \<mapsto> qsize q), qsize := qsize q + 1\<rparr>"
    obtain q' where
      r: "retry_loop analyzer ps failed ?q1 =
            Inr (failed @ filter (\<lambda>p. is_retryable (analyzer p)) ps, q')"
      and rc: "map core (lineage_objects q') = map core (lineage_objects ?q1) @ new_cores analyzer ps"
      and rs: "qsize q' = qsize ?q1 + length (new_cores analyzer ps)"
      and ri: "index_map q' = register (qsize ?q1) (map fst (new_cores analyzer ps)) (index_map ?q1)"
      and rf: "parse_failed_paths q' = parse_failed_paths ?q1"
      using Cons.IH [OF rest, of failed ?q1] by blast
    have "retry_loop analyzer (p # ps) failed q =
            Inr (failed @ filter (\<lambda>p. is_retryable (analyzer p)) (p # ps), q')"
      using step r Parsed by simp
    moreover have "map core (lineage_objects q') =
                     map core (lineage_objects q) @ new_cores analyzer (p # ps)"
      using rc c Parsed by (simp add: new_cores_Cons)
    moreover have "qsize q' = qsize q + length (new_cores analyzer (p # ps))"
      using rs Parsed by (simp add: new_cores_Cons)
    moreover have "index_map q' =
                     register (qsize q) (map fst (new_cores analyzer (p # ps))) (index_map q)"
      using ri Parsed by (simp add: new_cores_Cons)
    moreover have "parse_failed_paths q' = parse_failed_paths q" using rf by simp
    ultimately show ?thesis by blast
  next
    case Retryable
    obtain q' where
      r: "retry_loop analyzer ps (failed @ [p]) q =
            Inr ((failed @ [p]) @ filter (\<lambda>p. is_retryable (analyzer p)) ps, q')"
      and rest': "map core (lineage_objects q') = map core (lineage_objects q) @ new_cores analyzer ps"
        "qsize q' = qsize q + length (new_cores analyzer ps)"
        "index_map q' = register (qsize q) (map fst (new_cores analyzer ps)) (index_map q)"
        "parse_failed_paths q' = parse_failed_paths q"
      using Cons.IH [OF rest, of "failed @ [p]" q] by blast
    have "retry_loop analyzer (p # ps) failed q =
            Inr (failed @ filter (\<lambda>p. is_retryable (analyzer p)) (p # ps), q')"
      using r Retryable by (simp add: parse_summary_log_retryable)
    then show ?thesis using rest' Retryable by (auto simp: new_cores_Cons)
  next
    case Uncaught
    then show ?thesis using Cons.prems by simp
  qed
qed

lemma parse_list_spec:
  assumes "\<forall>p\<in>set ps. analyzer p \<noteq> Uncaught"
  shows "\<exists>q'. parse_list analyzer ps idx q = Inr q'
          \<and> map core (lineage_objects q') = map core (lineage_objects q) @ new_cores analyzer ps
          \<and> parse_failed_paths q' =
              parse_failed_paths q @ filter (\<lambda>p. is_retryable (analyzer p)) ps
          \<and> index_map q' = register idx (map fst (new_cores analyzer ps)) (index_map q)
          \<and> qsize q' = qsize q"
  using assms
proof (induction ps arbitrary: idx q)
  case Nil
  show ?case by (simp add: new_cores_Nil)
next
  case (Cons p ps)
  have rest: "\<forall>p\<in>set ps. analyzer p \<noteq> Uncaught" using Cons.prems by simp
  show ?case
  proof (cases "analyzer p")
    case (Parsed vals g)
    obtain objs where
      step: "parse_summary_log analyzer p idx True q =
               Inr (True, q\<lparr>lineage_objects := objs,
                             index_map := (index_map q)(dirname p \<mapsto> idx)\<rparr>)"
      and c: "map core objs = map core (lineage_objects q) @ [(dirname p, vals, g)]"
      using parse_summary_log_parsed [of analyzer p vals g idx True q] Parsed by blast
    let ?q1 = "q\<lparr>lineage_objects := objs, index_map := (index_map q)(dirname p \<mapsto> idx)\<rparr>"
    obtain q' where
      r: "parse_list analyzer ps (idx + 1) ?q1 = Inr q'"
      and rc: "map core (lineage_objects q') = map core (lineage_objects ?q1) @ new_cores analyzer ps"
      and rf: "parse_failed_paths q' =
                 parse_failed_paths ?q1 @ filter (\<lambda>p. is_retryable (analyzer p)) ps"
      and ri: "index_map q' = register (idx + 1) (map fst (new_cores analyzer ps)) (index_map ?q1)"
      and rs: "qsize q' = qsize ?q1"
      using Cons.IH [OF rest, of "idx + 1" ?q1] by blast
    have "parse_list analyzer (p # ps) idx q = Inr q'"
      using step r by simp
    moreover have "map core (lineage_objects q') =
                     map core (lineage_objects q) @ new_cores analyzer (p # ps)"
      using rc c Parsed by (simp add: new_cores_Cons)
    moreover have "parse_failed_paths q' =
              parse_failed_paths q @ filter (\<lambda>p. is_retryable (analyzer p)) (p # ps)"
      using rf Parsed by simp
    moreover have "index_map q' =
                     register idx (map fst (new_cores analyzer (p # ps))) (index_map q)"
      using ri Parsed by (simp add: new_cores_Cons)
    moreover have "qsize q' = qsize q" using rs by simp
    ultimately show ?thesis by blast
  next
    case Retryable
    let ?q1 = "q\<lparr>parse_failed_paths := parse_failed_paths q @ [p]\<rparr>"
    obtain q' where
      r: "parse_list analyzer ps idx ?q1 = Inr q'"
      and rest': "map core (lineage_objects q') = map core (lineage_objects ?q1) @ new_cores analyzer ps"
        "parse_failed_paths q' =
                 parse_failed_paths ?q1 @ filter (\<lambda>p. is_retryable (analyzer p)) ps"
        "index_map q' = register idx (map fst (new_cores analyzer ps)) (index_map ?q1)"
        "qsize q' = qsize ?q1"
      using Cons.IH [OF rest, of idx ?q1] by blast
    have "parse_list analyzer (p # ps) idx q = Inr q'"
      using r Retryable by (simp add: parse_summary_log_retryable)
    then show ?thesis using rest' Retryable by (auto simp: new_cores_Cons)
  next
    case Uncaught
    then show ?thesis using Cons.prems by simp
  qed
qed

lemma parse_fail_summary_logs_spec:
  assumes "\<forall>p\<in>set (parse_failed_paths q). analyzer p \<noteq> Uncaught"
  shows "\<exists>q'. parse_fail_summary_logs analyzer q = Inr q'
     \<and> parse_failed_paths q' = filter (\<lambda>p. is_retryable (analyzer p)) (parse_failed_paths q)
     \<and> map core (lineage_objects q') =
         map core (lineage_objects q) @ new_cores analyzer (parse_failed_paths q)
     \<and> qsize q' = qsize q + length (new_cores analyzer (parse_failed_paths q))
     \<and> index_map q' =
         register (qsize q) (map fst (new_cores analyzer (parse_failed_paths q))) (index_map q)"
proof (cases "parse_failed_paths q = []")
  case True
  then have "parse_fail_summary_logs analyzer q = Inr q"
    by (simp add: parse_fail_summary_logs_def)
  then show ?thesis using True by (simp add: new_cores_Nil)
next
  case False
  obtain q1 where
    r: "retry_loop analyzer (parse_failed_paths q) [] q =
          Inr ([] @ filter (\<lambda>p. is_retryable (analyzer p)) (parse_failed_paths q), q1)"
    and rest: "map core (lineage_objects q1) =
         map core (lineage_objects q) @ new_cores analyzer (parse_failed_paths q)"
      "qsize q1 = qsize q + length (new_cores analyzer (parse_failed_paths q))"
      "index_map q1 =
         register (qsize q) (map fst (new_cores analyzer (parse_failed_paths q))) (index_map q)"
    using retry_loop_spec [OF assms, of "[]" q] by blast
  let ?q' = "q1\<lparr>parse_failed_paths :=
                  filter (\<lambda>p. is_retryable (analyzer p)) (parse_failed_paths q)\<rparr>"
  have "parse_fail_summary_logs analyzer q = Inr ?q'"
    using False r by (simp add: parse_fail_summary_logs_def)
  then show ?thesis using rest by (intro exI [of _ ?q']) simp
qed

lemma get_summary_lineage_state:
  "get_summary_lineage analyzer dir keys q = Inr (r, q'') \<Longrightarrow>
   parse_fail_summary_logs analyzer q = Inr q''"
  by (auto simp: get_summary_lineage_def split: sum.splits option.splits if_splits)

lemma filter_summary_lineage_state:
  "filter_summary_lineage fm analyzer cond q = Inr (r, q'') \<Longrightarrow>
   parse_fail_summary_logs analyzer q = Inr q''"
  by (auto simp: filter_summary_lineage_def Let_def split: sum.splits)

lemma register_spec:
  "distinct ds \<Longrightarrow>
     (\<forall>k<length ds. register n ds m (ds ! k) = Some (n + k))
     \<and> (\<forall>d. d \<notin> set ds \<longrightarrow> register n ds m d = m d)"
proof (induction ds arbitrary: n m)
  case Nil
  show ?case by simp
next
  case (Cons d ds)
  then have IH: "(\<forall>k<length ds. register (Suc n) ds (m(d \<mapsto> n)) (ds ! k) = Some (Suc n + k))"
    "(\<forall>e. e \<notin> set ds \<longrightarrow> register (Suc n) ds (m(d \<mapsto> n)) e = (m(d \<mapsto> n)) e)"
    by auto
  have d: "d \<notin> set ds" using Cons.prems by simp
  have "register n (d # ds) m ((d # ds) ! k) = Some (n + k)" if "k < length (d # ds)" for k
  proof (cases k)
    case 0
    then show ?thesis using IH(2) d by simp
  next
    case (Suc k')
    then show ?thesis using IH(1) that by simp
  qed
  moreover have "register n (d # ds) m e = m e" if "e \<notin> set (d # ds)" for e
    using IH(2) that by simp
  ultimately show ?case by blast
qed

lemma distinct_split_filters:
  "distinct (ds @ map f xs) \<Longrightarrow> \<forall>x. \<not> (P x \<and> Q x) \<Longrightarrow>
   distinct (ds @ map f (filter P xs) @ map f (filter Q xs))"
proof (induction xs)
  case Nil
  then show ?case by simp
next
  case (Cons x xs)
  then show ?case by (auto simp: image_iff)
qed

lemma parsed_not_retryable: "\<not> (is_parsed out \<and> is_retryable out)"
  by (cases out) simp_all

lemma map_summary_dir_core: "map summary_dir objs = map fst (map core objs)"
  by (simp add: core_def)

lemma index_inv_extend:
  assumes inv: "qsize q = length (lineage_objects q)"
      "\<forall>i<length (lineage_objects q). index_map q (summary_dir (lineage_objects q ! i)) = Some i"
      "\<forall>d i. index_map q d = Some i \<longrightarrow>
           i < length (lineage_objects q) \<and> summary_dir (lineage_objects q ! i) = d"
    and dirs: "map summary_dir objs' = map summary_dir (lineage_objects q) @ ds"
    and dist: "distinct (map summary_dir (lineage_objects q) @ ds)"
  shows "(\<forall>i<length objs'. register (length (lineage_objects q)) ds (index_map q)
              (summary_dir (objs' ! i)) = Some i)
       \<and> (\<forall>d i. register (length (lineage_objects q)) ds (index_map q) d = Some i \<longrightarrow>
              i < length objs' \<and> summary_dir (objs' ! i) = d)"
proof -
  let ?n = "length (lineage_objects q)"
  let ?old = "map summary_dir (lineage_objects q)"
  let ?reg = "register ?n ds (index_map q)"
  have dds: "distinct ds" using dist by simp
  have reg1: "\<forall>k<length ds. ?reg (ds ! k) = Some (?n + k)"
    and reg2: "\<forall>d. d \<notin> set ds \<longrightarrow> ?reg d = index_map q d"
    using register_spec [OF dds, of ?n "index_map q"] by auto
  have len: "length objs' = ?n + length ds"
    using arg_cong [OF dirs, of length] by simp
  have nth: "summary_dir (objs' ! i) = (?old @ ds) ! i" if "i < length objs'" for i
    using arg_cong [OF dirs, of "\<lambda>xs. xs ! i"] that by simp
  have a: "?reg (summary_dir (objs' ! i)) = Some i" if i: "i < length objs'" for i
  proof (cases "i < ?n")
    case True
    then have e: "summary_dir (objs' ! i) = summary_dir (lineage_objects q ! i)"
      using nth [OF i] by (simp add: nth_append)
    have "summary_dir (lineage_objects q ! i) \<in> set ?old" using True by simp
    then have "summary_dir (lineage_objects q ! i) \<notin> set ds" using dist by auto
    then show ?thesis using reg2 e inv(2) True by simp
  next
    case False
    then have e: "summary_dir (objs' ! i) = ds ! (i - ?n)"
      using nth [OF i] by (simp add: nth_append)
    have "i - ?n < length ds" using False i len by simp
    then show ?thesis using reg1 e False by simp
  qed
  have b: "i < length objs' \<and> summary_dir (objs' ! i) = d" if r: "?reg d = Some i" for d i
  proof (cases "d \<in> set ds")
    case True
    then obtain k where k: "k < length ds" "ds ! k = d" by (auto simp: in_set_conv_nth)
    then have "i = ?n + k" using reg1 r by auto
    then show ?thesis using k len nth [of i] by (simp add: nth_append)
  next
    case False
    then have "index_map q d = Some i" using reg2 r by simp
    then have "i < ?n" "summary_dir (lineage_objects q ! i) = d" using inv(3) by auto
    then show ?thesis using len nth [of i] by (simp add: nth_append)
  qed
  show ?thesis using a b by blast
qed

lemma retry_loop_uncaught:
  assumes "\<exists>p\<in>set ps. analyzer p = Uncaught"
  shows "retry_loop analyzer ps failed q = Inl UncaughtAnalyzerError"
  using assms
proof (induction ps arbitrary: failed q)
  case Nil
  then show ?case by simp
next
  case (Cons p ps)
  show ?case
  proof (cases "analyzer p")
    case (Parsed vals g)
    then have rest: "\<exists>p\<in>set ps. analyzer p = Uncaught" using Cons.prems by auto
    obtain objs where
      "parse_summary_log analyzer p (qsize q) False q =
               Inr (True, q\<lparr>lineage_objects := objs,
                             index_map := (index_map q)(dirname p \<mapsto> qsize q)\<rparr>)"
      using parse_summary_log_parsed [of analyzer p vals g "qsize q" False q] Parsed by blast
    then show ?thesis using Cons.IH [OF rest] by simp
  next
    case Retryable
    then have rest: "\<exists>p\<in>set ps. analyzer p = Uncaught" using Cons.prems by auto
    show ?thesis using Cons.IH [OF rest] Retryable by (simp add: parse_summary_log_retryable)
  next
    case Uncaught
    then show ?thesis by (simp add: parse_summary_log_uncaught)
  qed
qed

lemma parse_list_uncaught:
  assumes "\<exists>p\<in>set ps. analyzer p = Uncaught"
  shows "parse_list analyzer ps idx q = Inl UncaughtAnalyzerError"
  using assms
proof (induction ps arbitrary: idx q)
  case Nil
  then show ?case by simp
next
  case (Cons p ps)
  show ?case
  proof (cases "analyzer p")
    case (Parsed vals g)
    then have rest: "\<exists>p\<in>set ps. analyzer p = Uncaught" using Cons.prems by auto
    obtain objs where
      "parse_summary_log analyzer p idx True q =
               Inr (True, q\<lparr>lineage_objects := objs,
                             index_map := (index_map q)(dirname p \<mapsto> idx)\<rparr>)"
      using parse_summary_log_parsed [of analyzer p vals g idx True q] Parsed by blast
    then show ?thesis using Cons.IH [OF rest] by simp
  next
    case Retryable
    then have rest: "\<exists>p\<in>set ps. analyzer p = Uncaught" using Cons.prems by auto
    show ?thesis using Cons.IH [OF rest] Retryable by (simp add: parse_summary_log_retryable)
  next
    case Uncaught
    then show ?thesis by (simp add: parse_summary_log_uncaught)
  qed
qed

lemma parse_fail_summary_logs_uncaught:
  assumes "\<exists>p\<in>set (parse_failed_paths q). analyzer p = Uncaught"
  shows "parse_fail_summary_logs analyzer q = Inl UncaughtAnalyzerError"
proof -
  have "parse_failed_paths q \<noteq> []" using assms by auto
  then show ?thesis
    using retry_loop_uncaught [OF assms, of "[]" q] by (simp add: parse_fail_summary_logs_def)
qed

lemma index_inv_retry:
  assumes inv: "index_inv q" and run: "parse_fail_summary_logs analyzer q = Inr q'"
  shows "index_inv q'"
proof -
  let ?failed = "parse_failed_paths q"
  let ?ds = "map fst (new_cores analyzer ?failed)"
  have nu: "\<forall>p\<in>set ?failed. analyzer p \<noteq> Uncaught"
    using parse_fail_summary_logs_uncaught [of q analyzer] run by auto
  have f': "parse_failed_paths q' = filter (\<lambda>p. is_retryable (analyzer p)) ?failed"
    and c': "map core (lineage_objects q') = map core (lineage_objects q) @ new_cores analyzer ?failed"
    and s': "qsize q' = qsize q + length (new_cores analyzer ?failed)"
    and i': "index_map q' = register (qsize q) ?ds (index_map q)"
    using parse_fail_summary_logs_spec [OF nu] run by auto
  have old: "qsize q = length (lineage_objects q)"
      "\<forall>i<length (lineage_objects q). index_map q (summary_dir (lineage_objects q ! i)) = Some i"
      "\<forall>d i. index_map q d = Some i \<longrightarrow>
           i < length (lineage_objects q) \<and> summary_dir (lineage_objects q ! i) = d"
      "distinct (map summary_dir (lineage_objects q) @ map dirname ?failed)"
    using inv by (auto simp: index_inv_def)
  have dirs: "map summary_dir (lineage_objects q') = map summary_dir (lineage_objects q) @ ?ds"
    using arg_cong [OF c', of "map fst"] by (simp add: map_summary_dir_core)
  have ds: "?ds = map dirname (filter (\<lambda>p. is_parsed (analyzer p)) ?failed)"
    by (rule new_cores_dirs)
  have dist3: "distinct (map summary_dir (lineage_objects q) @ ?ds @ map dirname (parse_failed_paths q'))"
    unfolding ds f'
    by (rule distinct_split_filters [OF old(4)]) (simp add: parsed_not_retryable)
  then have dist: "distinct (map summary_dir (lineage_objects q) @ ?ds)" by auto
  have len: "length (lineage_objects q') = length (lineage_objects q) + length ?ds"
    using arg_cong [OF dirs, of length] by simp
  have "qsize q' = length (lineage_objects q')" using s' old(1) len by simp
  moreover have "(\<forall>i<length (lineage_objects q').
           index_map q' (summary_dir (lineage_objects q' ! i)) = Some i)
     \<and> (\<forall>d i. index_map q' d = Some i \<longrightarrow>
           i < length (lineage_objects q') \<and> summary_dir (lineage_objects q' ! i) = d)"
    using index_inv_extend [OF old(1-3) dirs dist] i' old(1) by simp
  moreover have "distinct (map summary_dir (lineage_objects q') @ map dirname (parse_failed_paths q'))"
    using dist3 dirs by simp
  ultimately show ?thesis by (simp add: index_inv_def)
qed

lemma init_spec:
  assumes "truthy sp" "sp \<noteq> PathOther True"
    and "\<forall>p\<in>set (paths_of sp). analyzer p \<noteq> Uncaught"
  shows "if new_cores analyzer (paths_of sp) = []
         then init analyzer sp = Inl LineageSummaryParseException
         else \<exists>q. init analyzer sp = Inr q
                \<and> map core (lineage_objects q) = new_cores analyzer (paths_of sp)
                \<and> parse_failed_paths q = filter (\<lambda>p. is_retryable (analyzer p)) (paths_of sp)
                \<and> qsize q = length (new_cores analyzer (paths_of sp))
                \<and> index_map q = register 0 (map fst (new_cores analyzer (paths_of sp))) Map.empty"
proof -
  let ?q0 = "\<lparr>lineage_objects = [], index_map = Map.empty, parse_failed_paths = [], qsize = 0\<rparr>
               :: 'a querier"
  let ?ps = "paths_of sp"
  obtain q1 where run: "parse_list analyzer ?ps 0 ?q0 = Inr q1"
    and c: "map core (lineage_objects q1) = new_cores analyzer ?ps"
    and f: "parse_failed_paths q1 = filter (\<lambda>p. is_retryable (analyzer p)) ?ps"
    and i: "index_map q1 = register 0 (map fst (new_cores analyzer ?ps)) Map.empty"
    using parse_list_spec [OF assms(3), of 0 ?q0] by auto
  have body: "(case sp of
                PathStr s \<Rightarrow> map_sum id snd (parse_summary_log analyzer s 0 True ?q0)
              | PathList ps \<Rightarrow> parse_list analyzer ps 0 ?q0
              | PathOther b \<Rightarrow> Inl LineageParamTypeError) = Inr q1"
  proof (cases sp)
    case (PathStr s)
    have "parse_list analyzer [s] 0 ?q0 = map_sum id snd (parse_summary_log analyzer s 0 True ?q0)"
      by (auto split: sum.splits)
    then show ?thesis using run PathStr by simp
  next
    case (PathList ps)
    then show ?thesis using run by simp
  next
    case (PathOther b)
    then show ?thesis using assms(1,2) by simp
  qed
  have e: "lineage_objects q1 = [] \<longleftrightarrow> new_cores analyzer ?ps = []"
    using arg_cong [OF c, of length] by (simp flip: length_0_conv)
  show ?thesis
  proof (cases "new_cores analyzer ?ps = []")
    case True
    then show ?thesis using body assms(1) e by (simp add: init_def parse_summary_logs_def)
  next
    case False
    let ?q = "q1\<lparr>qsize := length (lineage_objects q1)\<rparr>"
    have "init analyzer sp = Inr ?q"
      using body assms(1) e False by (simp add: init_def parse_summary_logs_def)
    moreover have "qsize ?q = length (new_cores analyzer ?ps)"
      using arg_cong [OF c, of length] by simp
    ultimately show ?thesis using False c f i by (intro exI [of _ ?q] | simp)+
  qed
qed

lemma index_inv_init:
  assumes run: "init analyzer sp = Inr q" and dist: "distinct (map dirname (paths_of sp))"
  shows "index_inv q"
proof -
  let ?ps = "paths_of sp"
  let ?ds = "map fst (new_cores analyzer ?ps)"
  have t: "truthy sp"
    using run by (auto simp: init_def parse_summary_logs_def split: if_splits)
  have o: "sp \<noteq> PathOther True"
    using run by (auto simp: init_def parse_summary_logs_def split: if_splits)
  have nu: "\<forall>p\<in>set ?ps. analyzer p \<noteq> Uncaught"
  proof (rule ccontr)
    assume "\<not> ?thesis"
    then have u: "\<exists>p\<in>set ?ps. analyzer p = Uncaught" by blast
    have "init analyzer sp = Inl UncaughtAnalyzerError"
    proof (cases sp)
      case (PathStr s)
      then have "analyzer s = Uncaught" using u by simp
      then show ?thesis using PathStr t
        by (simp add: init_def parse_summary_logs_def parse_summary_log_uncaught)
    next
      case (PathList ps)
      then show ?thesis using parse_list_uncaught [of ps analyzer] u t
        by (simp add: init_def parse_summary_logs_def)
    next
      case (PathOther b)
      then show ?thesis using u by simp
    qed
    then show False using run by simp
  qed
  have c: "map core (lineage_objects q) = new_cores analyzer ?ps"
    and f: "parse_failed_paths q = filter (\<lambda>p. is_retryable (analyzer p)) ?ps"
    and s: "qsize q = length (new_cores analyzer ?ps)"
    and i: "index_map q = register 0 ?ds Map.empty"
    using init_spec [OF t o nu] run by (auto split: if_splits)
  have dirs: "map summary_dir (lineage_objects q) = ?ds"
    using arg_cong [OF c, of "map fst"] by (simp add: map_summary_dir_core)
  have ds: "?ds = map dirname (filter (\<lambda>p. is_parsed (analyzer p)) ?ps)"
    by (rule new_cores_dirs)
  have dist3: "distinct ([] @ ?ds @ map dirname (parse_failed_paths q))"
    unfolding ds f
    by (rule distinct_split_filters) (simp_all add: dist parsed_not_retryable)
  let ?q0 = "\<lparr>lineage_objects = [], index_map = Map.empty, parse_failed_paths = [], qsize = 0\<rparr>
               :: 'a querier"
  have "(\<forall>i<length (lineage_objects q).
            register (length (lineage_objects ?q0)) ?ds (index_map ?q0)
              (summary_dir (lineage_objects q ! i)) = Some i)
       \<and> (\<forall>d i. register (length (lineage_objects ?q0)) ?ds (index_map ?q0) d = Some i \<longrightarrow>
              i < length (lineage_objects q) \<and> summary_dir (lineage_objects q ! i) = d)"
    by (rule index_inv_extend) (use dirs dist3 in simp_all)
  then have "(\<forall>i<length (lineage_objects q).
           index_map q (summary_dir (lineage_objects q ! i)) = Some i)
     \<and> (\<forall>d i. index_map q d = Some i \<longrightarrow>
           i < length (lineage_objects q) \<and> summary_dir (lineage_objects q ! i) = d)"
    using i by simp
  moreover have "qsize q = length (lineage_objects q)"
    using s arg_cong [OF c, of length] by simp
  moreover have "distinct (map summary_dir (lineage_objects q) @ map dirname (parse_failed_paths q))"
    using dist3 dirs by simp
  ultimately show ?thesis by (simp add: index_inv_def)
qed

lemma unaborted_index_inv:
  "reachable_unaborted paths q \<Longrightarrow> distinct (map dirname paths) \<Longrightarrow> index_inv q"
proof (induction rule: reachable_unaborted.induct)
  case (unaborted_init analyzer sp q)
  then show ?case using index_inv_init by blast
next
  case (unaborted_retry q analyzer q')
  then show ?case using index_inv_retry by blast
qed






lemma unaborted_reachable: "reachable_unaborted paths q \<Longrightarrow> reachable paths q"
proof (induction rule: reachable_unaborted.induct)
  case (unaborted_init analyzer sp q)
  then show ?case by (rule reachable_init)
next
  case (unaborted_retry q analyzer q')
  have "parse_fail_summary_logs_left analyzer q = q'"
    using unaborted_retry.hyps(2) by (simp add: parse_fail_summary_logs_left_def)
  then show ?case using reachable_retry [OF unaborted_retry.IH, of analyzer] by simp
qed

subsection \<open>The queries after the retry pass\<close>

lemma init_two_logs: "init logs_at_first (PathList two_logs) = Inr querier_at_first"
  by (simp add: init_def parse_summary_logs_def parse_summary_log_def logs_at_first_def
      two_logs_def querier_at_first_def dirname_def add_dataset_mark_def Let_def)




lemma get_summary_lineage_dir:
  assumes run: "parse_fail_summary_logs analyzer q = Inr q'" and inv: "index_inv q'"
    and i: "i < length (lineage_objects q')"
  shows "get_summary_lineage analyzer (Some (summary_dir (lineage_objects q' ! i))) None q =
           Inr ([SummaryInfo (lineage_objects q' ! i) get_key_list], q')"
proof -
  have "index_map q' (summary_dir (lineage_objects q' ! i)) = Some i"
    using inv i by (simp add: index_inv_def)
  then show ?thesis using run i by (simp add: get_summary_lineage_def)
qed

lemma get_summary_lineage_found:
  assumes q: "get_summary_lineage analyzer (Some d) keys q = Inr (r, q')" and inv: "index_inv q'"
  shows "\<exists>i ks. i < length (lineage_objects q') \<and> r = [SummaryInfo (lineage_objects q' ! i) ks]
           \<and> summary_dir (lineage_objects q' ! i) = d
           \<and> (\<forall>j<length (lineage_objects q'). summary_dir (lineage_objects q' ! j) = d \<longrightarrow> j = i)"
proof -
  have run: "parse_fail_summary_logs analyzer q = Inr q'"
    using q by (rule get_summary_lineage_state)
  obtain i ks where m: "index_map q' d = Some i" and r: "r = [SummaryInfo (lineage_objects q' ! i) ks]"
    using q run by (auto simp: get_summary_lineage_def split: sum.splits option.splits if_splits)
  have i: "i < length (lineage_objects q')" "summary_dir (lineage_objects q' ! i) = d"
    using inv m by (auto simp: index_inv_def)
  have "j = i" if "j < length (lineage_objects q')" "summary_dir (lineage_objects q' ! j) = d" for j
  proof -
    have "index_map q' d = Some j" using inv that by (auto simp: index_inv_def)
    then show ?thesis using m by simp
  qed
  then show ?thesis using i r by blast
qed

lemma init_three_logs: "init only_a (PathList three_logs) = Inr querier_only_a"
  by (simp add: init_def parse_summary_logs_def parse_summary_log_def only_a_def
      three_logs_def querier_only_a_def dirname_def add_dataset_mark_def Let_def)

lemma reachable_after_abort_and_retry: "reachable three_logs querier_after_abort_and_retry"
  unfolding querier_after_abort_and_retry_def querier_after_abort_def
  by (intro reachable_retry reachable_init [OF init_three_logs]) simp

subsection \<open>Filtering, sorting and counting\<close>

lemma insort_py_length: "insort_py c x ys = Inr zs \<Longrightarrow> length zs = Suc (length ys)"
  by (induction ys arbitrary: zs) (auto split: sum.splits if_splits)

lemma stable_sort_length: "stable_sort c xs = Inr ys \<Longrightarrow> length ys = length xs"
  by (induction xs arbitrary: ys) (auto split: sum.splits dest: insort_py_length)

lemma py_sorted_length: "py_sorted c r xs = Inr ys \<Longrightarrow> length ys = length xs"
  by (cases "stable_sort c (rev xs)")
     (auto simp: py_sorted_def split: if_splits dest: stable_sort_length)

lemma sort_result_length: "sort_result fm c xs = Inr ys \<Longrightarrow> length ys = length xs"
  by (auto simp: sort_result_def Let_def split: option.splits cond_value.splits pyval.splits if_splits
      dest: py_sorted_length)

lemma filter_obj_drop_paging: "filter_obj fm (drop_paging c) obj = filter_obj fm c obj"
proof (induction c)
  case Nil
  show ?case by (simp add: drop_paging_def)
next
  case (Cons kv c)
  obtain k v where kv: "kv = (k, v)" by (cases kv)
  show ?case
  proof (cases "k = ''limit'' \<or> k = ''offset''")
    case True
    then have "is_condition_type k" by (auto simp: is_condition_type_def)
    then show ?thesis using True Cons kv by (auto simp: drop_paging_def)
  next
    case False
    then have d: "drop_paging ((k, v) # c) = (k, v) # drop_paging c"
      by (simp add: drop_paging_def)
    show ?thesis unfolding kv d using Cons
      by (simp split: cond_value.splits sum.splits)
  qed
qed

lemma map_of_drop_paging:
  "k \<noteq> ''limit'' \<Longrightarrow> k \<noteq> ''offset'' \<Longrightarrow> map_of (drop_paging c) k = map_of c k"
  by (induction c) (auto simp: drop_paging_def)

lemma sort_result_drop_paging: "sort_result fm (drop_paging c) xs = sort_result fm c xs"
  by (simp add: sort_result_def map_of_drop_paging
      split: option.splits cond_value.splits pyval.splits)

lemma filter_and_sort_drop_paging:
  "filter_and_sort fm (drop_paging c) objs = filter_and_sort fm c objs"
proof -
  have eq: "filter_obj fm (drop_paging c) = filter_obj fm c"
    by (rule ext) (rule filter_obj_drop_paging)
  show ?thesis
    unfolding filter_and_sort_def eq sort_result_drop_paging ..
qed

lemma handle_limit_and_offset_Nil:
  "paging_ok c \<Longrightarrow> handle_limit_and_offset c ([] :: 'a list) = Inr []"
  by (auto simp: paging_ok_def handle_limit_and_offset_def py_slice_def Let_def
      split: option.splits cond_value.splits pyval.splits)

lemma filter_summary_lineage_count:
  assumes "filter_summary_lineage fm analyzer (Some c) q = Inr (res, q')"
  shows "\<exists>kept result window.
           py_filter (filter_obj fm c) (lineage_objects q') = Inr kept
         \<and> filter_and_sort fm c (lineage_objects q') = Inr result
         \<and> length result = length kept
         \<and> handle_limit_and_offset c result = Inr window
         \<and> length (object res) = length window
         \<and> count res = length result"
proof -
  have run: "parse_fail_summary_logs analyzer q = Inr q'"
    using assms by (rule filter_summary_lineage_state)
  obtain result where fs: "filter_and_sort fm c (lineage_objects q') = Inr result"
    using assms run by (cases "filter_and_sort fm c (lineage_objects q')")
      (auto simp: filter_summary_lineage_def)
  obtain window where w: "handle_limit_and_offset c result = Inr window"
    using assms run fs by (cases "handle_limit_and_offset c result")
      (auto simp: filter_summary_lineage_def)
  have res: "count res = length result" "length (object res) = length window"
    using assms run fs w by (auto simp: filter_summary_lineage_def Let_def)
  obtain kept where k: "py_filter (filter_obj fm c) (lineage_objects q') = Inr kept"
    and s: "sort_result fm c kept = Inr result"
    using fs by (cases "py_filter (filter_obj fm c) (lineage_objects q')")
      (auto simp: filter_and_sort_def)
  have "length result = length kept" using s by (rule sort_result_length)
  then show ?thesis using k fs w res by blast
qed

lemma parse_fail_at_first:
  "parse_fail_summary_logs logs_at_first querier_at_first = Inr querier_at_first"
  by (simp add: parse_fail_summary_logs_def parse_summary_log_def logs_at_first_def
      querier_at_first_def)

subsection \<open>The sort agrees with the stable sort of the library\<close>

lemma rank_inj: "rank a = rank b \<longleftrightarrow> a = b"
  by (cases a; cases b) auto

lemma cmp_values_rank:
  "comparable a b \<Longrightarrow> cmp_values a b = Inr (three_way (rank a) (rank b))"
  by (cases a; cases b) (auto simp: cmp_values_def three_way_def)

lemma insort_py_key:
  assumes "\<forall>y\<in>set ys. c y x = Inr (three_way (k y) (k x))"
  shows "insort_py c x ys = Inr (insort_key k x ys)"
  using assms
proof (induction ys)
  case Nil
  show ?case by simp
next
  case (Cons y ys)
  then have IH: "insort_py c x ys = Inr (insort_key k x ys)" by simp
  have c: "c y x = Inr (three_way (k y) (k x))" using Cons.prems by simp
  show ?case
  proof (cases "k y < k x")
    case True
    then have "\<not> k x \<le> k y" by simp
    then show ?thesis using c IH True by (simp add: three_way_def)
  next
    case False
    then have "k x \<le> k y" by simp
    then show ?thesis using c False by (simp add: three_way_def)
  qed
qed

lemma stable_sort_key:
  assumes "\<forall>a\<in>set xs. \<forall>b\<in>set xs. c a b = Inr (three_way (k a) (k b))"
  shows "stable_sort c xs = Inr (sort_key k xs)"
  using assms
proof (induction xs)
  case Nil
  show ?case by simp
next
  case (Cons x xs)
  then have IH: "stable_sort c xs = Inr (sort_key k xs)" by simp
  have "\<forall>y\<in>set (sort_key k xs). c y x = Inr (three_way (k y) (k x))"
    using Cons.prems by simp
  then have "insort_py c x (sort_key k xs) = Inr (insort_key k x (sort_key k xs))"
    by (rule insort_py_key)
  then show ?case using IH by simp
qed

lemma py_sorted_key:
  assumes "\<forall>a\<in>set xs. \<forall>b\<in>set xs. c a b = Inr (three_way (k a) (k b))"
  shows "py_sorted c reverse xs =
           Inr (if reverse then rev (sort_key k (rev xs)) else sort_key k xs)"
proof (cases reverse)
  case True
  have "stable_sort c (rev xs) = Inr (sort_key k (rev xs))"
    by (rule stable_sort_key) (use assms in simp)
  then show ?thesis using True by (simp add: py_sorted_def)
next
  case False
  then show ?thesis using stable_sort_key [OF assms] by (simp add: py_sorted_def)
qed

lemma sorted_key_ascending:
  assumes cmpk: "\<forall>a\<in>set ys. \<forall>b\<in>set ys. c a b = Inr (three_way (k a) (k b))"
    and s: "sorted (map k ys)"
  shows "sorted_wrt (\<lambda>a b. \<exists>r\<le>0. c a b = Inr r) ys"
proof -
  have "sorted_wrt (\<lambda>a b. k a \<le> k b) ys" using s by (simp add: sorted_map)
  then show ?thesis
  proof (rule sorted_wrt_mono_rel [rotated])
    fix a b assume "a \<in> set ys" "b \<in> set ys" "k a \<le> k b"
    then show "\<exists>r\<le>0. c a b = Inr r" using cmpk by (auto simp: three_way_def)
  qed
qed

lemma sorted_key_descending:
  assumes cmpk: "\<forall>a\<in>set ys. \<forall>b\<in>set ys. c a b = Inr (three_way (k a) (k b))"
    and s: "sorted (map k ys)"
  shows "sorted_wrt (\<lambda>a b. \<exists>r\<ge>0. c a b = Inr r) (rev ys)"
proof -
  have "sorted_wrt (\<lambda>a b. k a \<le> k b) ys" using s by (simp add: sorted_map)
  then have "sorted_wrt (\<lambda>a b. \<exists>r\<ge>0. c b a = Inr r) ys"
  proof (rule sorted_wrt_mono_rel [rotated])
    fix a b assume "a \<in> set ys" "b \<in> set ys" "k a \<le> k b"
    then show "\<exists>r\<ge>0. c b a = Inr r" using cmpk by (auto simp: three_way_def)
  qed
  then show ?thesis by (simp add: sorted_wrt_rev)
qed

lemma stable_value_filter:
  "filter (\<lambda>obj. get_value_by_key obj name = v) (sort_key (\<lambda>obj. rank (get_value_by_key obj name)) xs)
     = filter (\<lambda>obj. get_value_by_key obj name = v) xs"
  using sort_key_stable [of "\<lambda>obj. rank (get_value_by_key obj name)" "rank v" xs]
  by (simp add: rank_inj)

lemma cmp_rank_on:
  assumes "(\<forall>obj\<in>set xs. \<forall>i. get_value_by_key obj name \<noteq> PInt i)
           \<or> (\<forall>obj\<in>set xs. \<forall>s. get_value_by_key obj name \<noteq> PStr s)"
  shows "\<forall>a\<in>set xs. \<forall>b\<in>set xs.
           cmp name a b = Inr (three_way (rank (get_value_by_key a name)) (rank (get_value_by_key b name)))"
proof (intro ballI)
  fix a b assume ab: "a \<in> set xs" "b \<in> set xs"
  have "comparable (get_value_by_key a name) (get_value_by_key b name)"
    using assms ab
    by (cases "get_value_by_key a name"; cases "get_value_by_key b name") auto
  then show "cmp name a b =
      Inr (three_way (rank (get_value_by_key a name)) (rank (get_value_by_key b name)))"
    by (simp add: cmp_def cmp_values_rank)
qed

subsection \<open>Claim C1: the retry pass before every query\<close>



subsection \<open>Claim C2: an unsupported field or expression in a condition\<close>

text \<open>
  C2. The check of a field name and of an expression key sits inside the filter of one
  record, after the expressions before it have been matched, and a failed match returns
  at once. With one record whose \<open>batch_size\<close> is 32: a condition that first asks for
  \<open>batch_size = 999\<close> and then names the unsupported field \<open>not_a_field\<close> is answered
  with an empty result instead of an error, and so is an unknown expression key after a
  failed match; the same unsupported field placed first raises the error.
\<close>

theorem unsupported_field_unnoticed:
  "map_sum id fst
     (filter_summary_lineage [''batch_size''] logs_at_first
        (Some [(''batch_size'', Exprs [(''eq'', Single (PInt 999))]),
               (''not_a_field'', Exprs [(''eq'', Single (PInt 1))])])
        querier_at_first)
     = Inr \<lparr>object = [], count = 0\<rparr>
   \<and> map_sum id fst
     (filter_summary_lineage [''batch_size''] logs_at_first
        (Some [(''batch_size'', Exprs [(''eq'', Single (PInt 999)), (''between'', Single (PInt 1))])])
        querier_at_first)
     = Inr \<lparr>object = [], count = 0\<rparr>
   \<and> map_sum id fst
     (filter_summary_lineage [''batch_size''] logs_at_first
        (Some [(''not_a_field'', Exprs [(''eq'', Single (PInt 1))]),
               (''batch_size'', Exprs [(''eq'', Single (PInt 999))])])
        querier_at_first)
     = Inl LineageQuerierParamException"
  by (simp add: filter_summary_lineage_def parse_fail_summary_logs_def parse_summary_log_def
      logs_at_first_def querier_at_first_def filter_and_sort_def sort_result_def
      handle_limit_and_offset_def is_condition_type_def is_valid_field_def is_valid_exp_def
      is_match_def operator_call_def get_value_by_key_def Let_def)

subsection \<open>Claim C3: the tag minted for a new dataset graph\<close>

text \<open>
  C3. The minted tag is meant to be the numeric successor of the greatest tag. The code
  takes \<open>max\<close> over the tags as strings, so once the tags \<open>'1'\<close> to \<open>'10'\<close> exist the
  greatest one is \<open>'9'\<close> and the minted tag is \<open>'10'\<close> again: of ten records with ten
  different dataset graphs, the ninth and the tenth receive the same mark.
\<close>

theorem new_mark_lexical_max:
  "map_sum id (map dataset_mark)
     (add_dataset_mark (map graph_obj
        [Some 1, Some 2, Some 3, Some 4, Some 5, Some 6, Some 7, Some 8, Some 9, Some 10]))
   = Inr [Some ''2'', Some ''3'', Some ''4'', Some ''5'', Some ''6'', Some ''7'', Some ''8'',
          Some ''9'', Some ''10'', Some ''10'']"
  by code_simp

subsection \<open>Claim C4: equal dataset graphs share a mark\<close>

text \<open>
  C4. After a grouping pass over any sequence of records, in whatever order they were
  ingested, the pass has changed nothing but the marks, any two records with equal
  dataset graphs carry the same mark, and every record without a dataset graph carries
  the mark \<open>'1'\<close>. The pass never raises.
\<close>

theorem add_dataset_mark_groups:
  "\<exists>objs'. add_dataset_mark objs = Inr objs' \<and> length objs' = length objs
     \<and> (\<forall>i<length objs. \<exists>m. objs' ! i = (objs ! i)\<lparr>dataset_mark := Some m\<rparr>)
     \<and> (\<forall>i<length objs. \<forall>j<length objs.
           dataset_graph (objs ! i) = dataset_graph (objs ! j) \<longrightarrow>
           dataset_mark (objs' ! i) = dataset_mark (objs' ! j))
     \<and> (\<forall>i<length objs. dataset_graph (objs ! i) = None \<longrightarrow>
           dataset_mark (objs' ! i) = Some ''1'')"
proof -
  obtain objs' grp' where run: "mark_loop [(''1'', None)] objs = Inr objs'"
    and len: "length objs' = length objs"
    and nth: "\<forall>i<length objs. objs' ! i =
                 (objs ! i)\<lparr>dataset_mark := Some (resolve grp' (dataset_graph (objs ! i)))\<rparr>"
    and keep: "\<forall>h. settled [(''1'', None)] h \<longrightarrow>
                 resolve grp' h = resolve [(''1'', None)] h \<and> settled grp' h"
    using mark_loop_inv [OF good_seed, of objs] by blast
  have mark: "dataset_mark (objs' ! i) = Some (resolve grp' (dataset_graph (objs ! i)))"
    if "i < length objs" for i
    using nth that by simp
  have none: "resolve grp' None = ''1''"
    using keep settled_seed resolve_seed by metis
  have "\<forall>i<length objs. \<exists>m. objs' ! i = (objs ! i)\<lparr>dataset_mark := Some m\<rparr>"
    using nth by blast
  moreover have "\<forall>i<length objs. \<forall>j<length objs.
           dataset_graph (objs ! i) = dataset_graph (objs ! j) \<longrightarrow>
           dataset_mark (objs' ! i) = dataset_mark (objs' ! j)"
    using mark by simp
  moreover have "\<forall>i<length objs. dataset_graph (objs ! i) = None \<longrightarrow>
           dataset_mark (objs' ! i) = Some ''1''"
    using mark none by simp
  ultimately show ?thesis
    using run len unfolding add_dataset_mark_def by blast
qed

theorem add_dataset_mark_groups_witness:
  "\<exists>objs'. add_dataset_mark [graph_obj (Some 4), graph_obj None, graph_obj (Some 4)] = Inr objs'
     \<and> dataset_mark (objs' ! 0) = dataset_mark (objs' ! 2)
     \<and> dataset_mark (objs' ! 1) = Some ''1''"
proof -
  let ?objs = "[graph_obj (Some 4), graph_obj None, graph_obj (Some 4)]"
  obtain objs' where run: "add_dataset_mark ?objs = Inr objs'"
    and same: "\<forall>i<length ?objs. \<forall>j<length ?objs.
           dataset_graph (?objs ! i) = dataset_graph (?objs ! j) \<longrightarrow>
           dataset_mark (objs' ! i) = dataset_mark (objs' ! j)"
    and none: "\<forall>i<length ?objs. dataset_graph (?objs ! i) = None \<longrightarrow>
           dataset_mark (objs' ! i) = Some ''1''"
    using add_dataset_mark_groups [of ?objs] by blast
  have "dataset_mark (objs' ! 0) = dataset_mark (objs' ! 2)"
    using same [rule_format, of 0 2] by (simp add: graph_obj_def)
  moreover have "dataset_mark (objs' ! 1) = Some ''1''"
    using none [rule_format, of 1] by (simp add: graph_obj_def)
  ultimately show ?thesis using run by blast
qed

subsection \<open>Claim C5: the filter-expression evaluator\<close>

text \<open>
  C5. \<open>is_match\<close> answers \<open>False\<close> for the four ordering kinds when the actual value is
  \<open>None\<close>, whatever the expected value; for \<open>in\<close> it answers whether the actual value
  is an element of the expected list; for \<open>eq\<close>, and for an ordering kind with an actual
  value that is not \<open>None\<close>, it answers what the operator of that name answers on
  (actual, expected), which on two integers or two strings is the order of the type and
  for \<open>eq\<close> is equality.
\<close>

theorem is_match_semantics:
  "(except_key \<in> {''lt'', ''gt'', ''le'', ''ge''} \<longrightarrow>
      is_match except_key except_value PNone = Inr False)
   \<and> is_match ''in'' (Multi vs) actual_value = Inr (actual_value \<in> set vs)
   \<and> is_match ''eq'' except_value actual_value = operator_eq actual_value except_value
   \<and> is_match ''eq'' (Single v) actual_value = Inr (actual_value = v)
   \<and> (actual_value \<noteq> PNone \<longrightarrow>
        is_match ''lt'' except_value actual_value = against operator_lt actual_value except_value
      \<and> is_match ''gt'' except_value actual_value = against operator_gt actual_value except_value
      \<and> is_match ''le'' except_value actual_value = against operator_le actual_value except_value
      \<and> is_match ''ge'' except_value actual_value = against operator_ge actual_value except_value)
   \<and> is_match ''lt'' (Single (PInt j)) (PInt i) = Inr (i < j)
   \<and> is_match ''gt'' (Single (PInt j)) (PInt i) = Inr (i > j)
   \<and> is_match ''le'' (Single (PInt j)) (PInt i) = Inr (i \<le> j)
   \<and> is_match ''ge'' (Single (PInt j)) (PInt i) = Inr (i \<ge> j)
   \<and> is_match ''lt'' (Single (PStr t)) (PStr s) = Inr (s < t)
   \<and> is_match ''gt'' (Single (PStr t)) (PStr s) = Inr (s > t)
   \<and> is_match ''le'' (Single (PStr t)) (PStr s) = Inr (s \<le> t)
   \<and> is_match ''ge'' (Single (PStr t)) (PStr s) = Inr (s \<ge> t)"
  by (auto simp: is_match_def operator_call_def)

theorem is_match_semantics_witness:
  "''le'' \<in> {''lt'', ''gt'', ''le'', ''ge''}
   \<and> is_match ''le'' (Single (PInt 3)) PNone = Inr False
   \<and> PInt 2 \<noteq> PNone
   \<and> is_match ''le'' (Single (PInt 3)) (PInt 2) = against operator_le (PInt 2) (Single (PInt 3))
   \<and> is_match ''le'' (Single (PInt 3)) (PInt 2) = Inr True"
  using is_match_semantics [of "''le''" "Single (PInt 3)" "[]" "PInt 2" PNone 3 2 "[]" "[]"]
  by simp

subsection \<open>Claim C6: sorting\<close>

text \<open>
  C6, as the code has it. Let the condition name a supported field to sort by, and let
  the values of that field in the records be integers and \<open>None\<close> only, or strings and
  \<open>None\<close> only, so that no comparison raises. The comparator holds two \<open>None\<close> values
  equal, puts \<open>None\<close> before any other value, and otherwise follows the order of the
  integers or of the strings. The sort returns the same records, ordered upwards by the
  comparator, or downwards when \<open>sorted_type\<close> is \<open>'descending'\<close>; in both directions
  the records that share a value keep the relative order they had before the sort.
\<close>

theorem sort_result_stable:
  assumes name: "map_of condition ''sorted_name'' = Some (Scalar (PStr name))"
    and valid: "\<not> is_valid_field fm name"
    and vals: "(\<forall>obj\<in>set result. \<forall>i. get_value_by_key obj name \<noteq> PInt i)
               \<or> (\<forall>obj\<in>set result. \<forall>s. get_value_by_key obj name \<noteq> PStr s)"
  shows "\<exists>ys. sort_result fm condition result = Inr ys
     \<and> (if map_of condition ''sorted_type'' = Some (Scalar (PStr ''descending''))
        then sorted_wrt (\<lambda>a b. \<exists>r\<ge>0. cmp name a b = Inr r) ys
        else sorted_wrt (\<lambda>a b. \<exists>r\<le>0. cmp name a b = Inr r) ys)
     \<and> (\<forall>v. filter (\<lambda>obj. get_value_by_key obj name = v) ys
              = filter (\<lambda>obj. get_value_by_key obj name = v) result)
     \<and> set ys = set result
     \<and> cmp_values PNone PNone = Inr 0
     \<and> (\<forall>v. v \<noteq> PNone \<longrightarrow> cmp_values PNone v = Inr (- 1) \<and> cmp_values v PNone = Inr 1)
     \<and> (\<forall>i j. cmp_values (PInt i) (PInt j) = Inr (if i < j then - 1 else if i = j then 0 else 1))
     \<and> (\<forall>s t. cmp_values (PStr s) (PStr t) = Inr (if s < t then - 1 else if s = t then 0 else 1))"
proof -
  let ?k = "\<lambda>obj. rank (get_value_by_key obj name)"
  let ?desc = "map_of condition ''sorted_type'' = Some (Scalar (PStr ''descending''))"
  let ?ys = "if ?desc then rev (sort_key ?k (rev result)) else sort_key ?k result"
  have ck: "\<forall>a\<in>set result. \<forall>b\<in>set result. cmp name a b = Inr (three_way (?k a) (?k b))"
    using cmp_rank_on [OF vals] .
  have run: "sort_result fm condition result = Inr ?ys"
    using name valid py_sorted_key [OF ck, of ?desc] by (simp add: sort_result_def)
  have ord: "if ?desc then sorted_wrt (\<lambda>a b. \<exists>r\<ge>0. cmp name a b = Inr r) ?ys
        else sorted_wrt (\<lambda>a b. \<exists>r\<le>0. cmp name a b = Inr r) ?ys"
  proof (cases ?desc)
    case True
    have "sorted_wrt (\<lambda>a b. \<exists>r\<ge>0. cmp name a b = Inr r) (rev (sort_key ?k (rev result)))"
      by (rule sorted_key_descending [where k = ?k]) (use ck in simp_all)
    then show ?thesis using True by simp
  next
    case False
    have "sorted_wrt (\<lambda>a b. \<exists>r\<le>0. cmp name a b = Inr r) (sort_key ?k result)"
      by (rule sorted_key_ascending [where k = ?k]) (use ck in simp_all)
    then show ?thesis using False by simp
  qed
  have stab: "\<forall>v. filter (\<lambda>obj. get_value_by_key obj name = v) ?ys
              = filter (\<lambda>obj. get_value_by_key obj name = v) result"
  proof
    fix v
    have "filter (\<lambda>obj. get_value_by_key obj name = v) (rev (sort_key ?k (rev result)))
            = filter (\<lambda>obj. get_value_by_key obj name = v) result"
      using stable_value_filter [of name v "rev result"] by (simp add: rev_filter [symmetric] rev_swap)
    then show "filter (\<lambda>obj. get_value_by_key obj name = v) ?ys
              = filter (\<lambda>obj. get_value_by_key obj name = v) result"
      using stable_value_filter [of name v result] by simp
  qed
  have st: "set ?ys = set result" by simp
  have c1: "cmp_values PNone PNone = Inr 0" by (simp add: cmp_values_def)
  have c2: "\<forall>v. v \<noteq> PNone \<longrightarrow> cmp_values PNone v = Inr (- 1) \<and> cmp_values v PNone = Inr 1"
    by (simp add: cmp_values_def)
  have c3: "\<forall>i j. cmp_values (PInt i) (PInt j) = Inr (if i < j then - 1 else if i = j then 0 else 1)"
    by (simp add: cmp_values_def)
  have c4: "\<forall>s t. cmp_values (PStr s) (PStr t) = Inr (if s < t then - 1 else if s = t then 0 else 1)"
    by (auto simp: cmp_values_def)
  show ?thesis
    by (rule exI [of _ ?ys]) (intro conjI run ord stab st c1 c2 c3 c4)
qed

theorem sort_result_stable_witness:
  "\<exists>ys. sort_result [''batch_size''] by_batch_size_descending mixed_objs = Inr ys
     \<and> sorted_wrt (\<lambda>a b. \<exists>r\<ge>0. cmp ''batch_size'' a b = Inr r) ys
     \<and> filter (\<lambda>obj. get_value_by_key obj ''batch_size'' = PNone) ys = [sized_obj ''/b'' PNone]"
proof -
  have h1: "map_of by_batch_size_descending ''sorted_name'' = Some (Scalar (PStr ''batch_size''))"
    by (simp add: by_batch_size_descending_def)
  have h2: "\<not> is_valid_field [''batch_size''] ''batch_size''"
    by (simp add: is_valid_field_def)
  have h3: "(\<forall>obj\<in>set mixed_objs. \<forall>i. get_value_by_key obj ''batch_size'' \<noteq> PInt i)
               \<or> (\<forall>obj\<in>set mixed_objs. \<forall>s. get_value_by_key obj ''batch_size'' \<noteq> PStr s)"
    by (simp add: mixed_objs_def sized_obj_def get_value_by_key_def)
  have d: "map_of by_batch_size_descending ''sorted_type'' = Some (Scalar (PStr ''descending''))"
    by (simp add: by_batch_size_descending_def)
  obtain ys where run: "sort_result [''batch_size''] by_batch_size_descending mixed_objs = Inr ys"
    and ord: "sorted_wrt (\<lambda>a b. \<exists>r\<ge>0. cmp ''batch_size'' a b = Inr r) ys"
    and stab: "\<forall>v. filter (\<lambda>obj. get_value_by_key obj ''batch_size'' = v) ys
              = filter (\<lambda>obj. get_value_by_key obj ''batch_size'' = v) mixed_objs"
    using sort_result_stable [OF h1 h2 h3] unfolding d by auto
  have "filter (\<lambda>obj. get_value_by_key obj ''batch_size'' = PNone) ys = [sized_obj ''/b'' PNone]"
    using stab by (simp add: mixed_objs_def sized_obj_def get_value_by_key_def)
  then show ?thesis using run ord by blast
qed

text \<open>
  C6 as stated fails where two records share a sort key: the descending output is not
  the reversal of the ascending output, since \<open>sorted\<close> with \<open>reverse=True\<close> keeps
  such records in their original order. Two records with the same \<open>batch_size\<close> come
  out in the same order in both directions.
\<close>

theorem descending_keeps_ties:
  "sort_result [''batch_size''] by_batch_size tied_objs = Inr tied_objs
   \<and> sort_result [''batch_size''] by_batch_size_descending tied_objs = Inr tied_objs
   \<and> sort_result [''batch_size''] by_batch_size_descending tied_objs
       \<noteq> map_sum id rev (sort_result [''batch_size''] by_batch_size tied_objs)"
  by (simp add: sort_result_def by_batch_size_def by_batch_size_descending_def tied_objs_def
      sized_obj_def is_valid_field_def py_sorted_def cmp_def cmp_values_def get_value_by_key_def)

subsection \<open>Claim C7: pagination\<close>

text \<open>
  C7. Without the keys \<open>offset\<close> and \<open>limit\<close> the sequence is returned unchanged. With
  at least one of them, \<open>offset\<close> defaulting to 0 and \<open>limit\<close> to 10, and both
  non-negative integers as the query input shape has them, the result is the window
  from position \<open>offset * limit\<close> (included) to \<open>offset * limit + limit\<close> (excluded),
  shorter or empty when the bounds pass the end of the sequence, and never an error.
  For integers of either sign the code returns a piece of the sequence and no error.
\<close>

theorem handle_limit_and_offset_window:
  "(map_of condition ''offset'' = None \<and> map_of condition ''limit'' = None \<longrightarrow>
      handle_limit_and_offset condition result = Inr result)
   \<and> ((map_of condition ''offset'' \<noteq> None \<or> map_of condition ''limit'' \<noteq> None)
       \<and> (map_of condition ''offset'' = None \<and> offset = 0
           \<or> map_of condition ''offset'' = Some (Scalar (PInt (int offset))))
       \<and> (map_of condition ''limit'' = None \<and> limit = 10
           \<or> map_of condition ''limit'' = Some (Scalar (PInt (int limit))))
       \<longrightarrow> handle_limit_and_offset condition result
             = Inr (take limit (drop (offset * limit) result)))
   \<and> ((map_of condition ''offset'' = None
          \<or> (\<exists>i. map_of condition ''offset'' = Some (Scalar (PInt i))))
       \<and> (map_of condition ''limit'' = None
          \<or> (\<exists>i. map_of condition ''limit'' = Some (Scalar (PInt i))))
       \<longrightarrow> (\<exists>window. handle_limit_and_offset condition result = Inr window
              \<and> length window \<le> length result))"
proof -
  have slice: "py_slice result (int off * int lim) (int lim * (int off + 1))
                 = take lim (drop (off * lim) result)" for off lim
  proof -
    have a: "int off * int lim = int (off * lim)" by simp
    have b: "int lim * (int off + 1) = int (off * lim + lim)"
      by (simp add: algebra_simps)
    show ?thesis unfolding a b py_slice_nat by simp
  qed
  have slice0: "py_slice result 0 (int limit) = take limit result"
    using py_slice_nat [of result 0 limit] by simp
  have slice10: "py_slice result (int offset * 10) (10 * (int offset + 1))
                 = take 10 (drop (offset * 10) result)"
    using slice [of offset 10] by simp
  have none: "map_of condition ''offset'' = None \<and> map_of condition ''limit'' = None \<longrightarrow>
      handle_limit_and_offset condition result = Inr result"
    by (simp add: handle_limit_and_offset_def)
  have some: "(map_of condition ''offset'' \<noteq> None \<or> map_of condition ''limit'' \<noteq> None)
       \<and> (map_of condition ''offset'' = None \<and> offset = 0
           \<or> map_of condition ''offset'' = Some (Scalar (PInt (int offset))))
       \<and> (map_of condition ''limit'' = None \<and> limit = 10
           \<or> map_of condition ''limit'' = Some (Scalar (PInt (int limit))))
       \<longrightarrow> handle_limit_and_offset condition result
             = Inr (take limit (drop (offset * limit) result))"
    using slice slice0 slice10 by (auto simp: handle_limit_and_offset_def Let_def)
  have ints: "(map_of condition ''offset'' = None
          \<or> (\<exists>i. map_of condition ''offset'' = Some (Scalar (PInt i))))
       \<and> (map_of condition ''limit'' = None
          \<or> (\<exists>i. map_of condition ''limit'' = Some (Scalar (PInt i))))
       \<longrightarrow> (\<exists>window. handle_limit_and_offset condition result = Inr window
              \<and> length window \<le> length result)"
    using handle_limit_and_offset_ints [of condition result] by blast
  show ?thesis by (intro conjI none some ints)
qed

theorem handle_limit_and_offset_window_witness:
  "map_of ([] :: condition) ''offset'' = None \<and> map_of ([] :: condition) ''limit'' = None
   \<and> handle_limit_and_offset [] [1, 2, 3 :: nat] = Inr [1, 2, 3]
   \<and> handle_limit_and_offset [(''offset'', Scalar (PInt 1)), (''limit'', Scalar (PInt 2))]
        [0, 1, 2, 3, 4 :: nat] = Inr [2, 3]"
proof -
  have "handle_limit_and_offset [] [1, 2, 3 :: nat] = Inr [1, 2, 3]"
    using handle_limit_and_offset_window [of "[]" "[1, 2, 3 :: nat]" 0 10] by simp
  moreover have "handle_limit_and_offset
        [(''offset'', Scalar (PInt 1)), (''limit'', Scalar (PInt 2))] [0, 1, 2, 3, 4 :: nat]
      = Inr [2, 3]"
    using handle_limit_and_offset_window
      [of "[(''offset'', Scalar (PInt 1)), (''limit'', Scalar (PInt 2))]" "[0, 1, 2, 3, 4 :: nat]" 1 2]
    by simp
  ultimately show ?thesis by simp
qed

subsection \<open>Claim C8: the reported count\<close>

text \<open>
  C8. When the filter query returns, \<open>count\<close> is the length of the filtered and sorted
  sequence, which is the number of records the filter kept, and the objects are the
  window that pagination cuts from that sequence. Two conditions that differ only in
  \<open>limit\<close> and \<open>offset\<close> report the same count on the same querier. A query that
  matches no record, with \<open>limit\<close> and \<open>offset\<close> integers where present, returns the
  empty object list and the count 0.
\<close>

theorem count_before_pagination:
  "(filter_summary_lineage fm analyzer (Some c) q = Inr (res, q') \<longrightarrow>
      (\<exists>kept result window.
           py_filter (filter_obj fm c) (lineage_objects q') = Inr kept
         \<and> filter_and_sort fm c (lineage_objects q') = Inr result
         \<and> length result = length kept
         \<and> handle_limit_and_offset c result = Inr window
         \<and> length (object res) = length window
         \<and> count res = length result))
   \<and> (filter_summary_lineage fm analyzer (Some c) q = Inr (res, q')
       \<and> filter_summary_lineage fm analyzer (Some c2) q = Inr (res2, q2)
       \<and> drop_paging c = drop_paging c2 \<longrightarrow> count res2 = count res)
   \<and> (parse_fail_summary_logs analyzer q = Inr q'
       \<and> filter_and_sort fm c (lineage_objects q') = Inr [] \<and> paging_ok c \<longrightarrow>
       filter_summary_lineage fm analyzer (Some c) q = Inr (\<lparr>object = [], count = 0\<rparr>, q'))"
proof -
  have a: "filter_summary_lineage fm analyzer (Some c) q = Inr (res, q') \<longrightarrow>
      (\<exists>kept result window.
           py_filter (filter_obj fm c) (lineage_objects q') = Inr kept
         \<and> filter_and_sort fm c (lineage_objects q') = Inr result
         \<and> length result = length kept
         \<and> handle_limit_and_offset c result = Inr window
         \<and> length (object res) = length window
         \<and> count res = length result)"
    using filter_summary_lineage_count by blast
  have b: "filter_summary_lineage fm analyzer (Some c) q = Inr (res, q')
       \<and> filter_summary_lineage fm analyzer (Some c2) q = Inr (res2, q2)
       \<and> drop_paging c = drop_paging c2 \<longrightarrow> count res2 = count res"
  proof (intro impI, elim conjE)
    assume 1: "filter_summary_lineage fm analyzer (Some c) q = Inr (res, q')"
      and 2: "filter_summary_lineage fm analyzer (Some c2) q = Inr (res2, q2)"
      and d: "drop_paging c = drop_paging c2"
    have "parse_fail_summary_logs analyzer q = Inr q'" "parse_fail_summary_logs analyzer q = Inr q2"
      using 1 2 filter_summary_lineage_state by blast+
    then have q: "q2 = q'" by simp
    obtain r1 where r1: "filter_and_sort fm c (lineage_objects q') = Inr r1" "count res = length r1"
      using filter_summary_lineage_count [OF 1] by blast
    obtain r2 where r2: "filter_and_sort fm c2 (lineage_objects q2) = Inr r2" "count res2 = length r2"
      using filter_summary_lineage_count [OF 2] by blast
    have "filter_and_sort fm c (lineage_objects q') = filter_and_sort fm c2 (lineage_objects q')"
      using filter_and_sort_drop_paging [of fm c "lineage_objects q'"]
        filter_and_sort_drop_paging [of fm c2 "lineage_objects q'"] d by metis
    then show "count res2 = count res" using r1 r2 q by simp
  qed
  have e: "parse_fail_summary_logs analyzer q = Inr q'
       \<and> filter_and_sort fm c (lineage_objects q') = Inr [] \<and> paging_ok c \<longrightarrow>
       filter_summary_lineage fm analyzer (Some c) q = Inr (\<lparr>object = [], count = 0\<rparr>, q')"
    by (auto simp: filter_summary_lineage_def handle_limit_and_offset_Nil)
  show ?thesis by (intro conjI a b e)
qed

theorem count_before_pagination_witness:
  "parse_fail_summary_logs logs_at_first querier_at_first = Inr querier_at_first
   \<and> filter_and_sort [''batch_size'']
        [(''batch_size'', Exprs [(''eq'', Single (PInt 999))]), (''limit'', Scalar (PInt 5))]
        (lineage_objects querier_at_first) = Inr []
   \<and> paging_ok [(''batch_size'', Exprs [(''eq'', Single (PInt 999))]), (''limit'', Scalar (PInt 5))]
   \<and> filter_summary_lineage [''batch_size''] logs_at_first
        (Some [(''batch_size'', Exprs [(''eq'', Single (PInt 999))]), (''limit'', Scalar (PInt 5))])
        querier_at_first
      = Inr (\<lparr>object = [], count = 0\<rparr>, querier_at_first)"
proof -
  let ?c = "[(''batch_size'', Exprs [(''eq'', Single (PInt 999))]), (''limit'', Scalar (PInt 5))]"
  have h1: "parse_fail_summary_logs logs_at_first querier_at_first = Inr querier_at_first"
    by (rule parse_fail_at_first)
  have h2: "filter_and_sort [''batch_size''] ?c (lineage_objects querier_at_first) = Inr []"
    by (simp add: querier_at_first_def filter_and_sort_def sort_result_def
        is_condition_type_def is_valid_field_def is_valid_exp_def is_match_def
        operator_call_def get_value_by_key_def)
  have h3: "paging_ok ?c" by (simp add: paging_ok_def)
  have "filter_summary_lineage [''batch_size''] logs_at_first (Some ?c) querier_at_first
      = Inr (\<lparr>object = [], count = 0\<rparr>, querier_at_first)"
    using count_before_pagination
      [of "[''batch_size'']" logs_at_first ?c querier_at_first _ querier_at_first] h1 h2 h3
    by blast
  then show ?thesis using h1 h2 h3 by blast
qed

subsection \<open>Claim C9: ingestion\<close>

text \<open>
  C9, as the code has it. A constructor argument that is false in Python's sense (an
  empty string, an empty list, and also \<open>None\<close> or any other false value) raises the
  parameter-value error; a true argument that is neither a string nor a list raises the
  parameter-type error. For a non-empty string or list, when no path meets an uncaught
  exception, every path is attempted: the records are those of the paths that parse,
  in order, the failed-list holds the paths that failed, in order, and the terminal
  error \<open>LineageSummaryParseException\<close> is raised exactly when no path parsed.
\<close>

theorem ingestion:
  "(\<not> truthy sp \<longrightarrow> init analyzer sp = Inl LineageQuerierParamException)
   \<and> init analyzer (PathOther True) = Inl LineageParamTypeError
   \<and> (truthy sp \<and> sp \<noteq> PathOther True \<and> (\<forall>p\<in>set (paths_of sp). analyzer p \<noteq> Uncaught) \<longrightarrow>
        (if new_cores analyzer (paths_of sp) = []
         then init analyzer sp = Inl LineageSummaryParseException
         else \<exists>q. init analyzer sp = Inr q
                \<and> map core (lineage_objects q) = new_cores analyzer (paths_of sp)
                \<and> parse_failed_paths q = filter (\<lambda>p. is_retryable (analyzer p)) (paths_of sp)
                \<and> qsize q = length (new_cores analyzer (paths_of sp))
                \<and> index_map q = register 0 (map fst (new_cores analyzer (paths_of sp))) Map.empty))"
proof -
  have "\<not> truthy sp \<longrightarrow> init analyzer sp = Inl LineageQuerierParamException"
    by (simp add: init_def parse_summary_logs_def)
  moreover have "init analyzer (PathOther True) = Inl LineageParamTypeError"
    by (simp add: init_def parse_summary_logs_def)
  ultimately show ?thesis using init_spec [of sp analyzer] by blast
qed

theorem ingestion_witness:
  "\<exists>q. init logs_at_first (PathList [''/base/run2/b.log'', ''/base/run1/a.log'']) = Inr q
      \<and> map core (lineage_objects q) = [(''/base/run1'', [(''batch_size'', PInt 32)], None)]
      \<and> parse_failed_paths q = [''/base/run2/b.log'']
      \<and> qsize q = 1"
proof -
  let ?sp = "PathList [''/base/run2/b.log'', ''/base/run1/a.log'']"
  have h: "truthy ?sp \<and> ?sp \<noteq> PathOther True \<and> (\<forall>p\<in>set (paths_of ?sp). logs_at_first p \<noteq> Uncaught)"
    by (simp add: logs_at_first_def)
  have nc: "new_cores logs_at_first (paths_of ?sp) = [(''/base/run1'', [(''batch_size'', PInt 32)], None)]"
    by (simp add: logs_at_first_def new_cores_Cons new_cores_Nil dirname_def)
  have fl: "filter (\<lambda>p. is_retryable (logs_at_first p)) (paths_of ?sp) = [''/base/run2/b.log'']"
    by (simp add: logs_at_first_def)
  have "if new_cores logs_at_first (paths_of ?sp) = []
         then init logs_at_first ?sp = Inl LineageSummaryParseException
         else \<exists>q. init logs_at_first ?sp = Inr q
                \<and> map core (lineage_objects q) = new_cores logs_at_first (paths_of ?sp)
                \<and> parse_failed_paths q = filter (\<lambda>p. is_retryable (logs_at_first p)) (paths_of ?sp)
                \<and> qsize q = length (new_cores logs_at_first (paths_of ?sp))
                \<and> index_map q = register 0 (map fst (new_cores logs_at_first (paths_of ?sp))) Map.empty"
    using ingestion [of ?sp logs_at_first] h by blast
  then show ?thesis unfolding nc fl by auto
qed

text \<open>
  C9 as stated fails for an argument that is neither a string nor a list and is false,
  such as \<open>None\<close>: the emptiness test comes first, and the error is the
  parameter-value error, not the parameter-type error.
\<close>

theorem init_falsy_other:
  "init logs_at_first (PathOther False) = Inl LineageQuerierParamException
   \<and> init logs_at_first (PathOther False) \<noteq> Inl LineageParamTypeError"
  by (simp add: init_def parse_summary_logs_def)

subsection \<open>Claim C10: the index map gives the position of each record\<close>

text \<open>
  C10, as the code has it. Let the paths given to the constructor lie in pairwise
  different directories, and let no retry pass of the querier have been aborted by an
  exception that \<open>_parse_summary_log\<close> does not catch. In the querier the constructor
  returns, and after every retry pass, \<open>size\<close> is the number of records, the index map
  sends the directory of each record to the position of that record, and it holds
  nothing else. So a lookup by the directory of a record, also of one that a retry
  added in the same query, returns that record; and whatever a lookup by directory
  returns is the one record of that directory.
\<close>

theorem index_map_positions:
  assumes "distinct (map dirname paths)" and "reachable_unaborted paths q"
  shows "reachable paths q
    \<and> qsize q = length (lineage_objects q)
    \<and> (\<forall>i<length (lineage_objects q).
          index_map q (summary_dir (lineage_objects q ! i)) = Some i)
    \<and> (\<forall>d i. index_map q d = Some i \<longrightarrow>
          i < length (lineage_objects q) \<and> summary_dir (lineage_objects q ! i) = d)
    \<and> (\<forall>analyzer q' i.
          parse_fail_summary_logs analyzer q = Inr q' \<and> i < length (lineage_objects q') \<longrightarrow>
          get_summary_lineage analyzer (Some (summary_dir (lineage_objects q' ! i))) None q =
            Inr ([SummaryInfo (lineage_objects q' ! i) get_key_list], q'))
    \<and> (\<forall>analyzer d keys r q'.
          get_summary_lineage analyzer (Some d) keys q = Inr (r, q') \<longrightarrow>
          (\<exists>i ks. i < length (lineage_objects q')
             \<and> r = [SummaryInfo (lineage_objects q' ! i) ks]
             \<and> summary_dir (lineage_objects q' ! i) = d
             \<and> (\<forall>j<length (lineage_objects q').
                   summary_dir (lineage_objects q' ! j) = d \<longrightarrow> j = i)))"
proof -
  have inv: "index_inv q" using unaborted_index_inv [OF assms(2,1)] .
  have next_inv: "index_inv q'" if "parse_fail_summary_logs analyzer q = Inr q'"
    for analyzer :: "'a analyzer" and q'
    using index_inv_retry [OF inv that] .
  have a: "qsize q = length (lineage_objects q)"
    and b: "\<forall>i<length (lineage_objects q).
          index_map q (summary_dir (lineage_objects q ! i)) = Some i"
    and c: "\<forall>d i. index_map q d = Some i \<longrightarrow>
          i < length (lineage_objects q) \<and> summary_dir (lineage_objects q ! i) = d"
    using inv unfolding index_inv_def by blast+
  have d: "\<forall>analyzer q' i.
          parse_fail_summary_logs analyzer q = Inr q' \<and> i < length (lineage_objects q') \<longrightarrow>
          get_summary_lineage analyzer (Some (summary_dir (lineage_objects q' ! i))) None q =
            Inr ([SummaryInfo (lineage_objects q' ! i) get_key_list], q')"
    using get_summary_lineage_dir next_inv by blast
  have e: "\<forall>analyzer d keys r q'.
          get_summary_lineage analyzer (Some d) keys q = Inr (r, q') \<longrightarrow>
          (\<exists>i ks. i < length (lineage_objects q')
             \<and> r = [SummaryInfo (lineage_objects q' ! i) ks]
             \<and> summary_dir (lineage_objects q' ! i) = d
             \<and> (\<forall>j<length (lineage_objects q').
                   summary_dir (lineage_objects q' ! j) = d \<longrightarrow> j = i))"
  proof (intro allI impI)
    fix analyzer :: "'a analyzer" and d keys r q'
    assume g: "get_summary_lineage analyzer (Some d) keys q = Inr (r, q')"
    have "index_inv q'" using next_inv get_summary_lineage_state [OF g] .
    then show "\<exists>i ks. i < length (lineage_objects q')
             \<and> r = [SummaryInfo (lineage_objects q' ! i) ks]
             \<and> summary_dir (lineage_objects q' ! i) = d
             \<and> (\<forall>j<length (lineage_objects q').
                   summary_dir (lineage_objects q' ! j) = d \<longrightarrow> j = i)"
      using get_summary_lineage_found [OF g] by blast
  qed
  have r: "reachable paths q" using assms(2) by (rule unaborted_reachable)
  show ?thesis by (intro conjI r a b c d e)
qed

theorem index_map_positions_witness:
  "distinct (map dirname two_logs) \<and> reachable_unaborted two_logs querier_at_first
   \<and> qsize querier_at_first = length (lineage_objects querier_at_first)
   \<and> index_map querier_at_first ''/base/run1'' = Some 0
   \<and> (\<exists>q'. parse_fail_summary_logs logs_later querier_at_first = Inr q'
         \<and> get_summary_lineage logs_later (Some (summary_dir (lineage_objects q' ! 1))) None
             querier_at_first
           = Inr ([SummaryInfo (lineage_objects q' ! 1) get_key_list], q'))"
proof -
  have h1: "distinct (map dirname two_logs)"
    by (simp add: two_logs_def dirname_def)
  have h2: "reachable_unaborted two_logs querier_at_first"
    by (rule unaborted_init [OF init_two_logs]) simp
  note main = index_map_positions [OF h1 h2]
  have nu: "\<forall>p\<in>set (parse_failed_paths querier_at_first). logs_later p \<noteq> Uncaught"
    by (simp add: querier_at_first_def logs_later_def)
  obtain q' where run: "parse_fail_summary_logs logs_later querier_at_first = Inr q'"
    and c: "map core (lineage_objects q') =
         map core (lineage_objects querier_at_first)
           @ new_cores logs_later (parse_failed_paths querier_at_first)"
    using parse_fail_summary_logs_spec [OF nu] by blast
  have len: "1 < length (lineage_objects q')"
    using arg_cong [OF c, of length]
    by (simp add: querier_at_first_def logs_later_def new_cores_Cons new_cores_Nil)
  have g: "get_summary_lineage logs_later (Some (summary_dir (lineage_objects q' ! 1))) None
             querier_at_first
           = Inr ([SummaryInfo (lineage_objects q' ! 1) get_key_list], q')"
    using main run len by blast
  have s: "qsize querier_at_first = length (lineage_objects querier_at_first)"
    using main by blast
  have i: "index_map querier_at_first ''/base/run1'' = Some 0"
    using main by (simp add: querier_at_first_def)
  show ?thesis using h1 h2 s i run g by blast
qed

text \<open>
  C10 as stated fails after a retry pass that an uncaught exception aborted. The
  aborted pass has added the record of \<open>/b\<close> and has left \<open>/b/log\<close> in the
  failed-list; the next pass, which returns normally, parses that log again. The
  querier then holds the records of \<open>/a\<close>, \<open>/b\<close>, \<open>/b\<close> and \<open>/c\<close>, and the index map
  sends the directory of the record at position 1 to position 2.
\<close>

theorem index_map_after_aborted_pass:
  "distinct (map dirname three_logs)
   \<and> reachable three_logs querier_after_abort_and_retry
   \<and> parse_fail_summary_logs c_uncaught querier_only_a = Inl UncaughtAnalyzerError
   \<and> map_sum id qsize (parse_fail_summary_logs all_parse querier_after_abort) = Inr 4
   \<and> map summary_dir (lineage_objects querier_after_abort_and_retry)
        = [''/a'', ''/b'', ''/b'', ''/c'']
   \<and> index_map querier_after_abort_and_retry
        (summary_dir (lineage_objects querier_after_abort_and_retry ! 1)) = Some 2
   \<and> index_map querier_after_abort_and_retry
        (summary_dir (lineage_objects querier_after_abort_and_retry ! 1)) \<noteq> Some 1"
proof -
  have a: "distinct (map dirname three_logs)" by code_simp
  have b: "parse_fail_summary_logs c_uncaught querier_only_a = Inl UncaughtAnalyzerError"
    by (rule parse_fail_summary_logs_uncaught) (simp add: querier_only_a_def c_uncaught_def)
  have c: "map_sum id qsize (parse_fail_summary_logs all_parse querier_after_abort) = Inr 4"
    by code_simp
  have d: "map summary_dir (lineage_objects querier_after_abort_and_retry)
        = [''/a'', ''/b'', ''/b'', ''/c'']"
    by code_simp
  have e: "index_map querier_after_abort_and_retry
        (summary_dir (lineage_objects querier_after_abort_and_retry ! 1)) = Some 2"
    by code_simp
  have f: "index_map querier_after_abort_and_retry
        (summary_dir (lineage_objects querier_after_abort_and_retry ! 1)) \<noteq> Some 1"
    using e by simp
  show ?thesis by (intro conjI a reachable_after_abort_and_retry b c d e f)
qed

end
